theory Spec2Isabelle
  imports Main "HOL-Library.Multiset"
begin

section \<open>The job store (package store)\<close>

text \<open>
  Package \<open>store\<close> keeps the jobs of the queue server in a map from job identifier to
  \<open>*Job\<close>. The map holds pointers, so the model has an explicit memory: a heap from
  addresses to \<open>Job\<close> values, and the map from identifiers to addresses. A Go pointer is
  \<open>nil\<close> or the address of a live object; \<open>nil\<close> is \<open>None\<close>.

  \<open>Status\<close> is a named string type in the source (\<open>type Status string\<close>), so every string
  is a status value; the five constants are the ones the server uses. \<open>time.Time\<close> is an
  instant, modelled as an integer, with 0 for the zero value. An \<open>error\<close> value is
  identified by its message (the text \<open>Error()\<close> returns); the \<open>nil\<close> error is \<open>None\<close>.

  Every operation of the store holds the store's lock for its whole body, so each one is
  a single atomic step on the memory; the lock itself is not part of the state.
\<close>

type_synonym addr = nat
type_synonym Time = int
type_synonym Status = string
type_synonym error = string

definition StatusQueued :: Status where "StatusQueued = ''queued''"
definition StatusRunning :: Status where "StatusRunning = ''running''"
definition StatusCompleted :: Status where "StatusCompleted = ''completed''"
definition StatusFailed :: Status where "StatusFailed = ''failed''"
definition StatusCancelled :: Status where "StatusCancelled = ''cancelled''"

definition ErrNotFound :: error where "ErrNotFound = ''job not found''"

record Job =
  ID :: string
  Task :: string
  Status :: Status
  Error :: string
  CreatedAt :: Time
  UpdatedAt :: Time

text \<open>
  Every field of \<open>Job\<close> is a string or a time, an immutable value: a copy of the struct
  shares no memory that can be written with the original. \<open>zero_Job\<close> is the zero value
  \<open>Job{}\<close>.
\<close>

definition zero_Job :: Job where
  "zero_Job = \<lparr>ID = [], Task = [], Status = [], Error = [], CreatedAt = 0, UpdatedAt = 0\<rparr>"

type_synonym heap = "addr \<Rightarrow> Job"

text \<open>
  \<open>MemoryStore\<close> is the struct's \<open>jobs\<close> field. Its values are addresses, never \<open>nil\<close>:
  the only writer of the map is \<open>Save\<close>, which reads \<open>job.ID\<close> through the pointer
  before it stores the pointer.
\<close>

type_synonym MemoryStore = "string \<rightharpoonup> addr"

datatype panic =
    NilDereference
  | SendOnClosedChannel
  | CloseOfClosedChannel
  | MakechanSizeOutOfRange
  | NegativeWaitGroupCounter

definition New :: MemoryStore where
  "New = Map.empty"

text \<open>\<open>Save\<close> stores the pointer itself under the identifier the pointee has now.\<close>

definition Save :: "heap \<Rightarrow> MemoryStore \<Rightarrow> addr option \<Rightarrow> panic + MemoryStore" where
  "Save h s job =
     (case job of
        None \<Rightarrow> Inl NilDereference
      | Some a \<Rightarrow> Inr (s(ID (h a) \<mapsto> a)))"

text \<open>\<open>Get\<close> returns the pointee by value (\<open>return *job, nil\<close>).\<close>

definition Get :: "heap \<Rightarrow> MemoryStore \<Rightarrow> string \<Rightarrow> Job \<times> error option" where
  "Get h s jid =
     (case s jid of
        None \<Rightarrow> (zero_Job, Some ErrNotFound)
      | Some a \<Rightarrow> (h a, None))"

text \<open>
  \<open>UpdateStatus\<close> writes three fields through the stored pointer; the map is not
  written. \<open>now\<close> is the value \<open>time.Now()\<close> returns at the call.
\<close>

definition UpdateStatus ::
  "heap \<Rightarrow> MemoryStore \<Rightarrow> string \<Rightarrow> Status \<Rightarrow> string \<Rightarrow> Time \<Rightarrow> heap \<times> error option" where
  "UpdateStatus h s jid status errMsg now =
     (case s jid of
        None \<Rightarrow> (h, Some ErrNotFound)
      | Some a \<Rightarrow>
          (h(a := (h a)\<lparr>Status := status, Error := errMsg, UpdatedAt := now\<rparr>), None))"

text \<open>
  A caller of \<open>Get\<close> holds the returned struct in a variable of its own
  (\<open>got, _ := s.Get(jid)\<close>), a memory cell at an address \<open>b\<close> that no pointer of the map
  refers to, and may then assign to its fields (\<open>got.Status = ...\<close>). \<open>mutate_copy\<close> is
  the memory after that: the cell \<open>b\<close> holds the returned value changed by \<open>f\<close>.
\<close>

definition mutate_copy :: "heap \<Rightarrow> MemoryStore \<Rightarrow> string \<Rightarrow> addr \<Rightarrow> (Job \<Rightarrow> Job) \<Rightarrow> heap" where
  "mutate_copy h s jid b f = h(b := f (fst (Get h s jid)))"

text \<open>A small memory for examples: one job, saved under \<open>''c''\<close>, at address 0.\<close>

definition job_c :: Job where
  "job_c = \<lparr>ID = ''c'', Task = ''t'', Status = StatusQueued, Error = [],
            CreatedAt = 100, UpdatedAt = 100\<rparr>"

definition heap_c :: heap where
  "heap_c = (\<lambda>_. zero_Job)(0 := job_c)"

definition store_c :: MemoryStore where
  "store_c = [''c'' \<mapsto> 0]"

section \<open>Channels\<close>

text \<open>
  The pool's queue is a buffered Go channel of strings. The model keeps what the
  runtime keeps for a channel: the buffered elements (oldest first), the capacity, whether
  the channel is closed, and the goroutines parked in a receive (oldest first). No
  goroutine ever parks in a send on this channel: its only send is the non-blocking one
  of \<open>Submit\<close>.
\<close>

record chan =
  buf :: "string list"
  cap :: nat
  closed :: bool
  recvq :: "nat list"

text \<open>
  The send case of a \<open>select\<close> with a \<open>default\<close>: it panics on a closed channel, hands
  the value to the first parked receiver if there is one, else appends it to the buffer if
  there is room, and else is not ready (the \<open>default\<close> case runs).
\<close>

datatype sent = ToReceiver nat | ToBuffer | NotReady

definition chan_send_nb :: "chan \<Rightarrow> string \<Rightarrow> panic + (chan \<times> sent)" where
  "chan_send_nb c v =
     (if closed c then Inl SendOnClosedChannel
      else case recvq c of
        w # q \<Rightarrow> Inr (c\<lparr>recvq := q\<rparr>, ToReceiver w)
      | [] \<Rightarrow>
          if length (buf c) < cap c then Inr (c\<lparr>buf := buf c @ [v]\<rparr>, ToBuffer)
          else Inr (c, NotReady))"

text \<open>
  The receive of \<open>for v := range ch\<close> by goroutine \<open>w\<close>: it takes the oldest buffered
  element; on an empty buffer it ends the loop if the channel is closed and parks
  otherwise.
\<close>

datatype recvd = Got string | ChanClosed | MustPark

definition chan_recv :: "chan \<Rightarrow> nat \<Rightarrow> chan \<times> recvd" where
  "chan_recv c w =
     (case buf c of
        v # vs \<Rightarrow> (c\<lparr>buf := vs\<rparr>, Got v)
      | [] \<Rightarrow>
          if closed c then (c, ChanClosed)
          else (c\<lparr>recvq := recvq c @ [w]\<rparr>, MustPark))"

text \<open>
  \<open>close(ch)\<close> panics on a closed channel; otherwise it marks the channel closed and
  wakes every parked receiver (returned as the second component), whose receive then
  reports that the channel is closed.
\<close>

definition chan_close :: "chan \<Rightarrow> panic + (chan \<times> nat list)" where
  "chan_close c =
     (if closed c then Inl CloseOfClosedChannel
      else Inr (c\<lparr>closed := True, recvq := []\<rparr>, recvq c))"

section \<open>The worker pool (package worker)\<close>

text \<open>
  \<open>Config\<close> and \<open>Pool\<close> are the structs of the source. The fields of \<open>Config\<close> are
  machine integers of 64 bits: a configuration of the program has them between \<open>- 2^63\<close>
  and \<open>2^63 - 1\<close>. \<open>JobTimeout\<close> is a \<open>time.Duration\<close>, a number of nanoseconds.
  \<open>store\<close> is the store the pool's pointer refers to, and \<open>wg\<close> is the counter of the
  \<open>sync.WaitGroup\<close>.
\<close>

record Config =
  NumWorkers :: int
  QueueSize :: int
  JobTimeout :: int

definition DefaultConfig :: Config where
  "DefaultConfig = \<lparr>NumWorkers = 3, QueueSize = 100, JobTimeout = 30 * 1000000000\<rparr>"

record Pool =
  jobs :: chan
  store :: MemoryStore
  cfg :: Config
  wg :: int

text \<open>
  Where the goroutine of \<open>runWorker\<close> stands: about to execute the receive of its
  \<open>range\<close> loop; parked in that receive; holding a received identifier, about to call
  \<open>processJob\<close>; inside \<open>processJob\<close> after the status was set to running and the
  executor goroutine was started, waiting in the \<open>select\<close>; past the loop, about to run the
  deferred \<open>wg.Done()\<close>; returned.
\<close>

datatype wstate = AtRange | Parked | Received string | Racing string | RangeDone | Exited

text \<open>Where the caller of \<open>Stop\<close> stands: not called, inside \<open>wg.Wait()\<close>, returned.\<close>

datatype stop_state = NotStopped | Waiting | Returned

text \<open>
  One call of \<open>processJob\<close> makes a context with a deadline, a channel \<open>done\<close> of
  capacity one, and a goroutine that runs \<open>done <- executeTask(ctx, jobID)\<close>. An
  \<open>executor\<close> is that goroutine with its context and its channel: the worker that started
  it, the job, the time it was started, the deadline of the context, and how far it is.
  \<open>XRunning\<close>: \<open>executeTask\<close> has not returned. \<open>XDelivered r\<close>: it returned \<open>r\<close>, and the
  send gave \<open>r\<close> to the worker waiting in its \<open>select\<close>. \<open>XBuffered r\<close>: it returned
  \<open>r\<close>, and the send put \<open>r\<close> into the buffer of \<open>done\<close>, where it stays: no worker
  receives from that channel any more. In each of the last two the goroutine has ended.
\<close>

datatype xstate = XRunning | XDelivered "error option" | XBuffered "error option"

record executor =
  xowner :: nat
  xjob :: string
  xstart :: Time
  xdeadline :: Time
  xstate :: xstate

text \<open>
  The state of the running program: the memory, the pool, the worker goroutines (worker
  \<open>i\<close> of the source is at position \<open>i - 1\<close>), the executors started so far, for each
  worker the executor of its current call of \<open>processJob\<close>, and the caller of \<open>Stop\<close>. The
  last two fields are history, written by no function of the source: the identifiers
  \<open>Submit\<close> has accepted, in order, and the calls of \<open>UpdateStatus\<close> the workers have made,
  in order, each with the worker, the identifier, the status and the error text.
\<close>

record system =
  heap :: heap
  pool :: Pool
  workers :: "wstate list"
  executors :: "executor list"
  flight :: "nat \<Rightarrow> nat"
  stopper :: stop_state
  accepted :: "string list"
  updates :: "(nat \<times> string \<times> Status \<times> string) list"

text \<open>
  \<open>make(chan string, n)\<close> panics when the size \<open>n\<close> is negative or above the largest
  size the runtime admits for the element type. That limit depends on the platform (it is
  what the address space leaves for elements of 16 bytes, a little below \<open>2^44\<close> on a
  64-bit platform), so it is a parameter, \<open>lim\<close>, of the model. Memory is taken to be
  sufficient for what the checks of the runtime admit.
\<close>

definition make_chan :: "int \<Rightarrow> int \<Rightarrow> panic + chan" where
  "make_chan lim n =
     (if n < 0 \<or> lim < n then Inl MakechanSizeOutOfRange
      else Inr \<lparr>buf = [], cap = nat n, closed = False, recvq = []\<rparr>)"

text \<open>
  \<open>wg.Add(1)\<close>: the counter of a wait group has 32 bits, and \<open>Add\<close> panics when the
  counter it has written is negative, which is what one more than \<open>2^31 - 1\<close> wraps to.
  \<open>next_int\<close> is \<open>i++\<close> on an integer of 64 bits.
\<close>

definition wg_Add1 :: "int \<Rightarrow> panic + int" where
  "wg_Add1 v =
     (if v + 1 < 0 \<or> 2 ^ 31 \<le> v + 1 then Inl NegativeWaitGroupCounter else Inr (v + 1))"

definition next_int :: "int \<Rightarrow> int" where
  "next_int i = (if i = 2 ^ 63 - 1 then - (2 ^ 63) else i + 1)"

text \<open>
  The loop of \<open>NewPool\<close>, from \<open>i\<close> up to \<open>n\<close>: each round adds one to the wait group
  and starts one worker goroutine.
\<close>

function start_workers ::
  "int \<Rightarrow> int \<Rightarrow> int \<times> wstate list \<Rightarrow> panic + (int \<times> wstate list)" where
  "start_workers i n (w, gs) =
     (if i \<le> n then
        (case wg_Add1 w of
           Inl p \<Rightarrow> Inl p
         | Inr w' \<Rightarrow> start_workers (next_int i) n (w', gs @ [AtRange]))
      else Inr (w, gs))"
  by pat_completeness auto
termination
  by (relation "measure (\<lambda>(i, n, w, gs). nat (2 ^ 31 - w))")
     (auto simp: wg_Add1_def split: if_splits)

text \<open>
  \<open>NewPool\<close> makes the channel, starts the workers and returns the pool; the source has
  no other statement but the log line, and no check of its own.
\<close>

definition NewPool :: "int \<Rightarrow> heap \<Rightarrow> MemoryStore \<Rightarrow> Config \<Rightarrow> panic + system" where
  "NewPool lim h s c =
     (case make_chan lim (QueueSize c) of
        Inl p \<Rightarrow> Inl p
      | Inr ch \<Rightarrow>
          (case start_workers 1 (NumWorkers c) (0, []) of
             Inl p \<Rightarrow> Inl p
           | Inr (n, gs) \<Rightarrow>
               Inr \<lparr>heap = h,
                    pool = \<lparr>jobs = ch, store = s, cfg = c, wg = n\<rparr>,
                    workers = gs, executors = [], flight = (\<lambda>_. 0), stopper = NotStopped,
                    accepted = [], updates = []\<rparr>))"

text \<open>
  \<open>Submit\<close> is the \<open>select\<close> with the send and the \<open>default\<close>. A value handed to a
  parked worker is what that worker's receive returns.
\<close>

definition Submit :: "system \<Rightarrow> string \<Rightarrow> panic + (system \<times> bool)" where
  "Submit s jobID =
     (case chan_send_nb (jobs (pool s)) jobID of
        Inl p \<Rightarrow> Inl p
      | Inr (c, ToReceiver w) \<Rightarrow>
          Inr (s\<lparr>pool := (pool s)\<lparr>jobs := c\<rparr>, workers := (workers s)[w := Received jobID]\<rparr>, True)
      | Inr (c, ToBuffer) \<Rightarrow> Inr (s\<lparr>pool := (pool s)\<lparr>jobs := c\<rparr>\<rparr>, True)
      | Inr (c, NotReady) \<Rightarrow> Inr (s, False))"

text \<open>A run of consecutive \<open>Submit\<close> calls with nothing else in between, and what each returned.\<close>

fun Submit_all :: "system \<Rightarrow> string list \<Rightarrow> panic + (system \<times> bool list)" where
  "Submit_all s [] = Inr (s, [])"
| "Submit_all s (jobID # rest) =
     (case Submit s jobID of
        Inl p \<Rightarrow> Inl p
      | Inr (s', b) \<Rightarrow>
          (case Submit_all s' rest of
             Inl p \<Rightarrow> Inl p
           | Inr (s'', bs) \<Rightarrow> Inr (s'', b # bs)))"

text \<open>
  \<open>Stop\<close> in its two statements: \<open>close(p.jobs)\<close>, whose woken receivers leave their
  loops, and \<open>p.wg.Wait()\<close>, which returns once the counter is zero (\<open>None\<close>: it still
  blocks).
\<close>

definition Stop_close :: "system \<Rightarrow> panic + system" where
  "Stop_close s =
     (case chan_close (jobs (pool s)) of
        Inl p \<Rightarrow> Inl p
      | Inr (c, woken) \<Rightarrow>
          Inr (s\<lparr>pool := (pool s)\<lparr>jobs := c\<rparr>,
                 workers := fold (\<lambda>w gs. gs[w := RangeDone]) woken (workers s),
                 stopper := Waiting\<rparr>))"

definition Stop_wait :: "system \<Rightarrow> system option" where
  "Stop_wait s =
     (if stopper s = Waiting \<and> wg (pool s) = 0 then Some (s\<lparr>stopper := Returned\<rparr>) else None)"

text \<open>
  \<open>processJob\<close>, run by worker \<open>w\<close>. \<open>context.WithTimeout\<close>, called at time \<open>now\<close> with the
  duration \<open>d\<close>, gives a context whose deadline is \<open>now + d\<close>; its \<open>Done\<close> channel is closed
  from the deadline on (at once when \<open>d\<close> is not positive), and \<open>ctx.Err()\<close> is then
  \<open>context.DeadlineExceeded\<close> (\<open>cancel\<close> runs only when \<open>processJob\<close> returns).

  The first half of \<open>processJob\<close> makes the context from \<open>p.cfg.JobTimeout\<close>, sets the
  status to running (the error of \<open>UpdateStatus\<close> is dropped, as in the source), starts
  the executor and enters the \<open>select\<close>. The executor is the function held in the package
  variable \<open>executeTask\<close>, which the tests replace: what it returns and when are inputs of
  the model.
\<close>

definition WithTimeout :: "Time \<Rightarrow> int \<Rightarrow> Time" where
  "WithTimeout now d = now + d"

definition DeadlineExceeded :: error where
  "DeadlineExceeded = ''context deadline exceeded''"

definition processJob_running :: "system \<Rightarrow> nat \<Rightarrow> string \<Rightarrow> Time \<Rightarrow> system" where
  "processJob_running s w jobID now =
     s\<lparr>heap := fst (UpdateStatus (heap s) (store (pool s)) jobID StatusRunning [] now),
       executors := executors s @
         [\<lparr>xowner = w, xjob = jobID, xstart = now,
           xdeadline = WithTimeout now (JobTimeout (cfg (pool s))), xstate = XRunning\<rparr>],
       flight := (flight s)(w := length (executors s))\<rparr>"

text \<open>
  The second half is the \<open>select\<close>, and \<open>race\<close> names its two cases. The worker waits in
  the \<open>select\<close> from the moment it has started the executor, so the case is decided by the
  event that comes first. The case of \<open>done\<close> runs at time \<open>now\<close>, with the result the
  executor returns at that time, when the executor is still running, was started before
  \<open>now\<close>, and the deadline has not passed. The case of \<open>ctx.Done()\<close> runs at time \<open>now\<close>
  when the deadline is not after \<open>now\<close>. (Both can run when the executor returns at the
  very instant of the deadline.)
\<close>

datatype race = TaskDone "error option" | CtxDone

definition select_ready :: "executor \<Rightarrow> race \<Rightarrow> Time \<Rightarrow> bool" where
  "select_ready e r now =
     (case r of
        TaskDone res \<Rightarrow> xstate e = XRunning \<and> xstart e < now \<and> now \<le> xdeadline e
      | CtxDone \<Rightarrow> xdeadline e \<le> now \<and> xstart e \<le> now)"

text \<open>
  What the case that runs does. In the case of \<open>done\<close> the executor has delivered its
  result and ended. In the case of \<open>ctx.Done()\<close> nothing is done to the executor.
\<close>

definition processJob_select :: "system \<Rightarrow> nat \<Rightarrow> string \<Rightarrow> race \<Rightarrow> Time \<Rightarrow> system" where
  "processJob_select s w jobID r now =
     (case r of
        TaskDone (Some err) \<Rightarrow>
          s\<lparr>heap := fst (UpdateStatus (heap s) (store (pool s)) jobID StatusFailed err now),
            executors := (executors s)
              [flight s w := (executors s ! flight s w)\<lparr>xstate := XDelivered (Some err)\<rparr>]\<rparr>
      | TaskDone None \<Rightarrow>
          s\<lparr>heap := fst (UpdateStatus (heap s) (store (pool s)) jobID StatusCompleted [] now),
            executors := (executors s)
              [flight s w := (executors s ! flight s w)\<lparr>xstate := XDelivered None\<rparr>]\<rparr>
      | CtxDone \<Rightarrow>
          s\<lparr>heap := fst (UpdateStatus (heap s) (store (pool s)) jobID StatusCancelled
                            DeadlineExceeded now)\<rparr>)"

text \<open>The status and error text the second half passes to \<open>UpdateStatus\<close> (for the history).\<close>

definition select_update :: "race \<Rightarrow> Status \<times> string" where
  "select_update r =
     (case r of
        TaskDone (Some err) \<Rightarrow> (StatusFailed, err)
      | TaskDone None \<Rightarrow> (StatusCompleted, [])
      | CtxDone \<Rightarrow> (StatusCancelled, DeadlineExceeded))"

text \<open>
  The steps of the running program. Each is one access to shared state (the channel, the
  store, the wait group) by one goroutine, with the local computation around it:
  a call of \<open>Submit\<close>; the \<open>close\<close> of \<open>Stop\<close>; the return of \<open>Stop\<close>; worker \<open>w\<close>
  executing its receive; worker \<open>w\<close> running the first half of \<open>processJob\<close> at time
  \<open>now\<close>; worker \<open>w\<close> running a case of its \<open>select\<close> at time \<open>now\<close>; worker \<open>w\<close> running
  \<open>wg.Done()\<close>; executor \<open>k\<close> returning a result at time \<open>now\<close> when no worker waits for
  it; and any change of the memory and the store by the code around the pool (the
  handlers that save jobs, or that mark a rejected job failed).
\<close>

datatype action =
    CallSubmit string
  | CallStop
  | StopReturns
  | WorkerReceives nat
  | WorkerStarts nat Time
  | WorkerFinishes nat race Time
  | WorkerExits nat
  | ExecutorReturns nat "error option" Time
  | Collaborator heap MemoryStore

text \<open>
  \<open>step s a\<close> is the state after the step, or \<open>None\<close> when the step cannot happen in
  \<open>s\<close>: the goroutine is not at that statement or is blocked, or the statement panics
  (an unrecovered panic ends the program).
\<close>

definition worker_receives :: "system \<Rightarrow> nat \<Rightarrow> system option" where
  "worker_receives s w =
     (if w < length (workers s) \<and> workers s ! w = AtRange then
        (case chan_recv (jobs (pool s)) w of
           (c, Got jobID) \<Rightarrow>
             Some (s\<lparr>pool := (pool s)\<lparr>jobs := c\<rparr>, workers := (workers s)[w := Received jobID]\<rparr>)
         | (c, ChanClosed) \<Rightarrow>
             Some (s\<lparr>pool := (pool s)\<lparr>jobs := c\<rparr>, workers := (workers s)[w := RangeDone]\<rparr>)
         | (c, MustPark) \<Rightarrow>
             Some (s\<lparr>pool := (pool s)\<lparr>jobs := c\<rparr>, workers := (workers s)[w := Parked]\<rparr>))
      else None)"

definition worker_starts :: "system \<Rightarrow> nat \<Rightarrow> Time \<Rightarrow> system option" where
  "worker_starts s w now =
     (if w < length (workers s) then
        (case workers s ! w of
           Received jobID \<Rightarrow>
             Some ((processJob_running s w jobID now)
                     \<lparr>workers := (workers s)[w := Racing jobID],
                      updates := updates s @ [(w, jobID, StatusRunning, [])]\<rparr>)
         | _ \<Rightarrow> None)
      else None)"

definition worker_finishes :: "system \<Rightarrow> nat \<Rightarrow> race \<Rightarrow> Time \<Rightarrow> system option" where
  "worker_finishes s w r now =
     (if w < length (workers s) then
        (case workers s ! w of
           Racing jobID \<Rightarrow>
             if flight s w < length (executors s) \<and>
                select_ready (executors s ! flight s w) r now
             then Some ((processJob_select s w jobID r now)
                     \<lparr>workers := (workers s)[w := AtRange],
                      updates := updates s @ [(w, jobID, select_update r)]\<rparr>)
             else None
         | _ \<Rightarrow> None)
      else None)"

definition worker_exits :: "system \<Rightarrow> nat \<Rightarrow> system option" where
  "worker_exits s w =
     (if w < length (workers s) \<and> workers s ! w = RangeDone \<and> 0 < wg (pool s) then
        Some (s\<lparr>pool := (pool s)\<lparr>wg := wg (pool s) - 1\<rparr>, workers := (workers s)[w := Exited]\<rparr>)
      else None)"

text \<open>
  A worker waits for executor \<open>k\<close> when it is in the \<open>select\<close> of the call of
  \<open>processJob\<close> that started \<open>k\<close>. The send of an executor whose worker does not wait for it,
  or whose deadline has passed (the worker's \<open>select\<close> is then decided), finds no receiver
  and room in the buffer of \<open>done\<close>: the result goes into the buffer.
\<close>

definition awaited :: "system \<Rightarrow> nat \<Rightarrow> bool" where
  "awaited s k \<longleftrightarrow>
     xowner (executors s ! k) < length (workers s) \<and>
     workers s ! xowner (executors s ! k) = Racing (xjob (executors s ! k)) \<and>
     flight s (xowner (executors s ! k)) = k"

definition executor_returns :: "system \<Rightarrow> nat \<Rightarrow> error option \<Rightarrow> Time \<Rightarrow> system option" where
  "executor_returns s k res now =
     (if k < length (executors s) \<and> xstate (executors s ! k) = XRunning \<and>
         xstart (executors s ! k) < now \<and>
         \<not> (awaited s k \<and> now \<le> xdeadline (executors s ! k))
      then Some (s\<lparr>executors := (executors s)[k := (executors s ! k)\<lparr>xstate := XBuffered res\<rparr>]\<rparr>)
      else None)"

fun step :: "system \<Rightarrow> action \<Rightarrow> system option" where
  "step s (CallSubmit jobID) =
     (case Submit s jobID of
        Inl p \<Rightarrow> None
      | Inr (s', True) \<Rightarrow> Some (s'\<lparr>accepted := accepted s' @ [jobID]\<rparr>)
      | Inr (s', False) \<Rightarrow> Some s')"
| "step s CallStop =
     (case Stop_close s of Inl p \<Rightarrow> None | Inr s' \<Rightarrow> Some s')"
| "step s StopReturns = Stop_wait s"
| "step s (WorkerReceives w) = worker_receives s w"
| "step s (WorkerStarts w now) = worker_starts s w now"
| "step s (WorkerFinishes w r now) = worker_finishes s w r now"
| "step s (WorkerExits w) = worker_exits s w"
| "step s (ExecutorReturns k res now) = executor_returns s k res now"
| "step s (Collaborator h st) =
     Some (s\<lparr>heap := h, pool := (pool s)\<lparr>store := st\<rparr>\<rparr>)"

fun exec :: "system \<Rightarrow> action list \<Rightarrow> system option" where
  "exec s [] = Some s"
| "exec s (a # as) = (case step s a of None \<Rightarrow> None | Some s' \<Rightarrow> exec s' as)"

section \<open>Observations and invariants of a run\<close>

text \<open>
  A run starts with \<open>NewPool\<close> and goes on with any steps; it is \<open>None\<close> when
  \<open>NewPool\<close> panics or some step cannot happen.
\<close>

definition run ::
  "int \<Rightarrow> heap \<Rightarrow> MemoryStore \<Rightarrow> Config \<Rightarrow> action list \<Rightarrow> system option" where
  "run lim h st c as = (case NewPool lim h st c of Inl p \<Rightarrow> None | Inr s0 \<Rightarrow> exec s0 as)"

text \<open>What a call of \<open>Submit\<close> returns (\<open>None\<close>: it panics), and whether the buffer has room.\<close>

definition Submit_result :: "system \<Rightarrow> string \<Rightarrow> bool option" where
  "Submit_result s jobID = (case Submit s jobID of Inl p \<Rightarrow> None | Inr (s', b) \<Rightarrow> Some b)"

definition Submit_all_results :: "system \<Rightarrow> string list \<Rightarrow> bool list option" where
  "Submit_all_results s ids = (case Submit_all s ids of Inl p \<Rightarrow> None | Inr (s', bs) \<Rightarrow> Some bs)"

definition queue_has_room :: "system \<Rightarrow> bool" where
  "queue_has_room s \<longleftrightarrow> length (buf (jobs (pool s))) < cap (jobs (pool s))"

definition Submit_result_and_room :: "string \<Rightarrow> system \<Rightarrow> bool option \<times> bool" where
  "Submit_result_and_room jobID s = (Submit_result s jobID, queue_has_room s)"

text \<open>The status and the error text \<open>Get\<close> reports for an identifier.\<close>

definition status_of :: "string \<Rightarrow> system \<Rightarrow> Status" where
  "status_of jobID s = Status (fst (Get (heap s) (store (pool s)) jobID))"


text \<open>
  The identifier a worker holds before it has started the job, the identifier of the job
  it is running, and whether its goroutine still counts in the wait group.
\<close>

fun held :: "wstate \<Rightarrow> string list" where
  "held (Received j) = [j]"
| "held _ = []"

fun racing :: "wstate \<Rightarrow> string list" where
  "racing (Racing j) = [j]"
| "racing _ = []"

fun alive :: "wstate \<Rightarrow> nat" where
  "alive Exited = 0"
| "alive _ = 1"

definition in_hand :: "wstate list \<Rightarrow> string multiset" where
  "in_hand gs = mset (concat (map held gs))"

definition in_race :: "wstate list \<Rightarrow> string multiset" where
  "in_race gs = mset (concat (map racing gs))"

definition terminal :: "Status \<Rightarrow> bool" where
  "terminal st \<longleftrightarrow> st = StatusCompleted \<or> st = StatusFailed \<or> st = StatusCancelled"

text \<open>
  From the history of updates: the identifiers that got a terminal update, and the
  updates of one identifier, each as the worker and the status it wrote.
\<close>

definition finished :: "(nat \<times> string \<times> Status \<times> string) list \<Rightarrow> string list" where
  "finished us = map (fst \<circ> snd) (filter (\<lambda>u. terminal (fst (snd (snd u)))) us)"

definition trail ::
  "string \<Rightarrow> (nat \<times> string \<times> Status \<times> string) list \<Rightarrow> (nat \<times> Status) list" where
  "trail j us = map (\<lambda>u. (fst u, fst (snd (snd u)))) (filter (\<lambda>u. fst (snd u) = j) us)"

text \<open>
  The invariants of a run. The parked receivers are distinct parked workers, and there
  are none while the buffer holds an element.
\<close>

definition chan_ok :: "system \<Rightarrow> bool" where
  "chan_ok s \<longleftrightarrow>
     distinct (recvq (jobs (pool s))) \<and>
     (\<forall>w\<in>set (recvq (jobs (pool s))). w < length (workers s) \<and> workers s ! w = Parked) \<and>
     (recvq (jobs (pool s)) \<noteq> [] \<longrightarrow> buf (jobs (pool s)) = [])"

text \<open>
  Every accepted identifier is in exactly one place: in the buffer, held by a worker,
  being run by a worker, or finished.
\<close>

definition accounted :: "system \<Rightarrow> bool" where
  "accounted s \<longleftrightarrow>
     mset (accepted s) =
       mset (buf (jobs (pool s))) + in_hand (workers s) + in_race (workers s)
         + mset (finished (updates s))"

text \<open>The wait group counts the worker goroutines that have not returned.\<close>

definition wg_ok :: "system \<Rightarrow> bool" where
  "wg_ok s \<longleftrightarrow> wg (pool s) = int (sum_list (map alive (workers s)))"

text \<open>Once a worker has left its loop, the channel is closed and its buffer is empty.\<close>

definition drained :: "system \<Rightarrow> bool" where
  "drained s \<longleftrightarrow>
     ((\<exists>g\<in>set (workers s). g = RangeDone \<or> g = Exited) \<longrightarrow>
        closed (jobs (pool s)) \<and> buf (jobs (pool s)) = [])"

definition stop_ok :: "system \<Rightarrow> bool" where
  "stop_ok s \<longleftrightarrow> (stopper s = Returned \<longrightarrow> wg (pool s) = 0)"

text \<open>
  For an identifier accepted at most once: while worker \<open>w\<close> runs it, its only update is
  \<open>w\<close>'s running; once finished, its updates are that and one terminal update by the same
  worker; otherwise it has none.
\<close>

definition trail_ok :: "system \<Rightarrow> bool" where
  "trail_ok s \<longleftrightarrow>
     (\<forall>j. count_list (accepted s) j \<le> 1 \<longrightarrow>
        (\<forall>w<length (workers s). workers s ! w = Racing j \<longrightarrow>
           trail j (updates s) = [(w, StatusRunning)]) \<and>
        (j \<in> set (finished (updates s)) \<longrightarrow>
           (\<exists>w t. terminal t \<and> trail j (updates s) = [(w, StatusRunning), (w, t)])) \<and>
        ((\<forall>w<length (workers s). workers s ! w \<noteq> Racing j) \<and>
         j \<notin> set (finished (updates s)) \<longrightarrow> trail j (updates s) = []))"

text \<open>
  Every update in the history sets the status to running or to a terminal status, and
  the latest update of an identifier is a running one only while the worker that made it
  is still running that job.
\<close>

definition known_statuses :: "system \<Rightarrow> bool" where
  "known_statuses s \<longleftrightarrow>
     (\<forall>u\<in>set (updates s). fst (snd (snd u)) = StatusRunning \<or> terminal (fst (snd (snd u))))"

definition last_running :: "system \<Rightarrow> bool" where
  "last_running s \<longleftrightarrow>
     (\<forall>j w. trail j (updates s) \<noteq> [] \<and> last (trail j (updates s)) = (w, StatusRunning) \<longrightarrow>
        w < length (workers s) \<and> workers s ! w = Racing j)"

text \<open>
  A worker that is running a job has an executor of its own for it, whose deadline is
  its start plus the \<open>JobTimeout\<close> of the pool.
\<close>

definition flight_ok :: "system \<Rightarrow> bool" where
  "flight_ok s \<longleftrightarrow>
     (\<forall>w<length (workers s). \<forall>j. workers s ! w = Racing j \<longrightarrow>
        flight s w < length (executors s) \<and>
        xowner (executors s ! flight s w) = w \<and>
        xjob (executors s ! flight s w) = j \<and>
        xdeadline (executors s ! flight s w) =
          xstart (executors s ! flight s w) + JobTimeout (cfg (pool s)))"

definition pool_inv :: "system \<Rightarrow> bool" where
  "pool_inv s \<longleftrightarrow>
     chan_ok s \<and> accounted s \<and> wg_ok s \<and> drained s \<and> stop_ok s \<and> trail_ok s \<and>
     known_statuses s \<and> last_running s \<and> flight_ok s"





text \<open>
  For the examples: a limit of \<open>make\<close> of the size a 64-bit platform has, and
  configurations.
\<close>

definition lim_ex :: int where
  "lim_ex = 2 ^ 44 - 7"

definition cfg_1 :: Config where
  "cfg_1 = \<lparr>NumWorkers = 1, QueueSize = 2, JobTimeout = 5000000000\<rparr>"

definition cfg_unbuffered :: Config where
  "cfg_unbuffered = \<lparr>NumWorkers = 1, QueueSize = 0, JobTimeout = 5000000000\<rparr>"

definition cfg_no_workers :: Config where
  "cfg_no_workers = \<lparr>NumWorkers = 0, QueueSize = 2, JobTimeout = 5000000000\<rparr>"

definition cfg_invalid :: Config where
  "cfg_invalid = \<lparr>NumWorkers = 0, QueueSize = 1, JobTimeout = 0\<rparr>"






text \<open>The memory of the examples after the job has completed.\<close>

definition heap_done :: heap where
  "heap_done = heap_c(0 := job_c\<lparr>Status := StatusCompleted\<rparr>)"

section \<open>Properties of the store\<close>

lemma Save_New_job_c: "Save heap_c New (Some 0) = Inr store_c"
  by (simp add: Save_def New_def heap_c_def job_c_def store_c_def)

text \<open>
  The pointer \<open>Save\<close> stored is shared with the caller: a write through it is seen by
  \<open>Get\<close>. (This is what \<open>Get\<close>'s copy does not allow.)
\<close>

lemma Save_shares_pointer:
  "Save h s (Some a) = Inr s' \<Longrightarrow> fst (Get (h(a := j)) s' (ID (h a))) = j"
  by (auto simp: Save_def Get_def)

lemma UpdateStatus_absent: "s jid = None \<Longrightarrow> UpdateStatus h s jid st e now = (h, Some ErrNotFound)"
  by (simp add: UpdateStatus_def)

lemma UpdateStatus_present:
  "s jid = Some a \<Longrightarrow> UpdateStatus h s jid st e now =
     (h(a := (h a)\<lparr>Status := st, Error := e, UpdatedAt := now\<rparr>), None)"
  by (simp add: UpdateStatus_def)


text \<open>
  C6. \<open>Get\<close> returns the zero job and the not-found error for an absent identifier.
  For a stored identifier it returns the stored record by value and no error: after the
  caller has put the result into a variable of its own and changed it in any way, a
  second \<open>Get\<close> of the same identifier still returns the stored record as it was.
\<close>

theorem Get_returns_copy:
  "(s jid = None \<longrightarrow> Get h s jid = (zero_Job, Some ErrNotFound)) \<and>
   (\<forall>a. s jid = Some a \<longrightarrow>
      Get h s jid = (h a, None) \<and>
      (\<forall>b f. b \<notin> ran s \<longrightarrow> Get (mutate_copy h s jid b f) s jid = (h a, None)))"
proof (intro conjI allI impI)
  assume "s jid = None"
  then show "Get h s jid = (zero_Job, Some ErrNotFound)"
    by (simp add: Get_def)
next
  fix a assume "s jid = Some a"
  then show "Get h s jid = (h a, None)"
    by (simp add: Get_def)
next
  fix a b f
  assume present: "s jid = Some a" and own: "b \<notin> ran s"
  from present have "a \<in> ran s"
    by (auto simp: ran_def)
  with own have "a \<noteq> b"
    by auto
  with present show "Get (mutate_copy h s jid b f) s jid = (h a, None)"
    by (simp add: Get_def mutate_copy_def)
qed

theorem Get_returns_copy_witness:
  "store_c ''c'' = Some 0 \<and> (1::nat) \<notin> ran store_c \<and>
   Get heap_c store_c ''c'' = (job_c, None) \<and>
   mutate_copy heap_c store_c ''c'' 1 (\<lambda>j. j\<lparr>Status := StatusCompleted\<rparr>) 1
     = job_c\<lparr>Status := StatusCompleted\<rparr> \<and>
   Get (mutate_copy heap_c store_c ''c'' 1 (\<lambda>j. j\<lparr>Status := StatusCompleted\<rparr>)) store_c ''c''
     = (job_c, None) \<and>
   Status job_c = StatusQueued \<and>
   store_c ''nonexistent'' = None \<and>
   Get heap_c store_c ''nonexistent'' = (zero_Job, Some ErrNotFound)"
proof -
  have present: "store_c ''c'' = Some 0"
    by (simp add: store_c_def)
  have absent: "store_c ''nonexistent'' = None"
    by (simp add: store_c_def)
  have own: "(1::nat) \<notin> ran store_c"
    by (simp add: store_c_def)
  have cell: "heap_c 0 = job_c"
    by (simp add: heap_c_def)
  have copy: "mutate_copy heap_c store_c ''c'' 1 (\<lambda>j. j\<lparr>Status := StatusCompleted\<rparr>) 1
     = job_c\<lparr>Status := StatusCompleted\<rparr>"
    by (simp add: mutate_copy_def Get_def store_c_def heap_c_def)
  have queued: "Status job_c = StatusQueued"
    by (simp add: job_c_def)
  from Get_returns_copy [of store_c "''c''" heap_c] present own cell
  have "Get heap_c store_c ''c'' = (job_c, None)"
    and "Get (mutate_copy heap_c store_c ''c'' 1 (\<lambda>j. j\<lparr>Status := StatusCompleted\<rparr>)) store_c ''c''
      = (job_c, None)"
    by auto
  moreover from Get_returns_copy [of store_c "''nonexistent''" heap_c] absent
  have "Get heap_c store_c ''nonexistent'' = (zero_Job, Some ErrNotFound)"
    by simp
  ultimately show ?thesis
    using present absent own copy queued by simp
qed

section \<open>Lemmas about the pool\<close>

declare start_workers.simps [simp del]

lemma start_workers_counted:
  "0 \<le> w \<Longrightarrow> w < 2 ^ 31 \<Longrightarrow>
   start_workers (w + 1) n (w, gs) =
     (if n < 2 ^ 31 then Inr (w + int (nat (n - w)), gs @ replicate (nat (n - w)) AtRange)
      else Inl NegativeWaitGroupCounter)"
proof (induction "nat (2 ^ 31 - w)" arbitrary: w gs rule: less_induct)
  case less
  show ?case
  proof (cases "w + 1 \<le> n")
    case False
    with less.prems show ?thesis
      by (simp add: start_workers.simps)
  next
    case True
    show ?thesis
    proof (cases "w + 1 < 2 ^ 31")
      case False
      with less.prems have "w + 1 = 2 ^ 31" by simp
      with True have "start_workers (2 ^ 31) n (w, gs) = Inl NegativeWaitGroupCounter"
        by (subst start_workers.simps) (simp add: wg_Add1_def)
      with True \<open>w + 1 = 2 ^ 31\<close> show ?thesis
        by simp
    next
      case small: True
      with less.prems have add: "wg_Add1 w = Inr (w + 1)"
        by (simp add: wg_Add1_def)
      from small have nxt: "next_int (w + 1) = w + 1 + 1"
        by (simp add: next_int_def)
      from less.prems small have "nat (2 ^ 31 - (w + 1)) < nat (2 ^ 31 - w)" "0 \<le> w + 1"
        by simp_all
      from less.hyps [OF this(1) this(2) small, of "gs @ [AtRange]"]
      have "start_workers (w + 1 + 1) n (w + 1, gs @ [AtRange]) =
          (if n < 2 ^ 31
           then Inr (w + 1 + int (nat (n - (w + 1))),
                     (gs @ [AtRange]) @ replicate (nat (n - (w + 1))) AtRange)
           else Inl NegativeWaitGroupCounter)" .
      moreover from True have "nat (n - w) = Suc (nat (n - (w + 1)))"
        by simp
      ultimately show ?thesis
        using True add nxt
        by (simp add: start_workers.simps [of "w + 1" n w gs] replicate_app_Cons_same)
    qed
  qed
qed

lemma start_workers_from_1:
  "start_workers 1 n (0, []) =
     (if n < 2 ^ 31 then Inr (int (nat n), replicate (nat n) AtRange)
      else Inl NegativeWaitGroupCounter)"
  using start_workers_counted [of 0 n "[]"] by simp

lemma NewPool_ok:
  "0 \<le> QueueSize c \<Longrightarrow> QueueSize c \<le> lim \<Longrightarrow> NumWorkers c < 2 ^ 31 \<Longrightarrow>
   NewPool lim h s c = Inr \<lparr>heap = h,
                pool = \<lparr>jobs = \<lparr>buf = [], cap = nat (QueueSize c), closed = False, recvq = []\<rparr>,
                         store = s, cfg = c, wg = int (nat (NumWorkers c))\<rparr>,
                workers = replicate (nat (NumWorkers c)) AtRange, executors = [],
                flight = (\<lambda>_. 0), stopper = NotStopped,
                accepted = [], updates = []\<rparr>"
  by (simp add: NewPool_def make_chan_def start_workers_from_1)

lemma NewPool_Inr:
  assumes "NewPool lim h s c = Inr s0"
  shows "0 \<le> QueueSize c \<and> QueueSize c \<le> lim \<and> NumWorkers c < 2 ^ 31"
  using assms
  by (auto simp: NewPool_def make_chan_def start_workers_from_1 split: if_splits sum.splits)

lemma mset_concat_update:
  "w < length ws \<Longrightarrow>
   mset (concat (map f (ws[w := g]))) + mset (f (ws ! w)) = mset (concat (map f ws)) + mset (f g)"
proof (induction ws arbitrary: w)
  case Nil
  then show ?case by simp
next
  case (Cons x xs)
  show ?case
  proof (cases w)
    case 0
    then show ?thesis by simp
  next
    case (Suc k)
    with Cons.prems have "k < length xs" by simp
    from Cons.IH [OF this] Suc show ?thesis
      by (simp add: ac_simps)
  qed
qed

lemma sum_alive_update:
  "w < length ws \<Longrightarrow>
   sum_list (map alive (ws[w := g])) + alive (ws ! w) = sum_list (map alive ws) + alive g"
proof (induction ws arbitrary: w)
  case Nil
  then show ?case by simp
next
  case (Cons x xs)
  show ?case
  proof (cases w)
    case 0
    then show ?thesis by simp
  next
    case (Suc k)
    with Cons.prems have "k < length xs" by simp
    from Cons.IH [OF this] Suc show ?thesis
      by simp
  qed
qed

lemma length_wake [simp]: "length (fold (\<lambda>w gs. gs[w := x]) q gs) = length gs"
  by (induction q arbitrary: gs) auto

lemma nth_wake:
  "i < length gs \<Longrightarrow> fold (\<lambda>w gs. gs[w := x]) q gs ! i = (if i \<in> set q then x else gs ! i)"
  by (induction q arbitrary: gs) (auto simp: nth_list_update)

lemma map_wake:
  assumes "\<forall>w\<in>set q. w < length gs \<longrightarrow> f (gs ! w) = f x"
  shows "map f (fold (\<lambda>w gs. gs[w := x]) q gs) = map f gs"
  using assms by (intro nth_equalityI) (auto simp: nth_wake)

lemma racing_mem: "j \<in> set (concat (map racing ws)) \<longleftrightarrow> (\<exists>w<length ws. ws ! w = Racing j)"
proof
  assume "j \<in> set (concat (map racing ws))"
  then obtain g where g: "g \<in> set ws" "j \<in> set (racing g)" by auto
  have "g = Racing j" using g(2) by (cases g) auto
  with g show "\<exists>w<length ws. ws ! w = Racing j" by (auto simp: in_set_conv_nth)
next
  assume "\<exists>w<length ws. ws ! w = Racing j"
  then obtain w where "w < length ws" "ws ! w = Racing j" by auto
  then have "Racing j \<in> set ws" by (auto simp: in_set_conv_nth)
  then show "j \<in> set (concat (map racing ws))" by force
qed

lemma held_mem: "j \<in> set (concat (map held ws)) \<longleftrightarrow> (\<exists>w<length ws. ws ! w = Received j)"
proof
  assume "j \<in> set (concat (map held ws))"
  then obtain g where g: "g \<in> set ws" "j \<in> set (held g)" by auto
  have "g = Received j" using g(2) by (cases g) auto
  with g show "\<exists>w<length ws. ws ! w = Received j" by (auto simp: in_set_conv_nth)
next
  assume "\<exists>w<length ws. ws ! w = Received j"
  then obtain w where "w < length ws" "ws ! w = Received j" by auto
  then have "Received j \<in> set ws" by (auto simp: in_set_conv_nth)
  then show "j \<in> set (concat (map held ws))" by force
qed

lemma in_hand_update:
  "w < length gs \<Longrightarrow> in_hand (gs[w := g]) + mset (held (gs ! w)) = in_hand gs + mset (held g)"
  by (simp add: in_hand_def mset_concat_update)

lemma in_race_update:
  "w < length gs \<Longrightarrow> in_race (gs[w := g]) + mset (racing (gs ! w)) = in_race gs + mset (racing g)"
  by (simp add: in_race_def mset_concat_update)

lemma finished_append [simp]:
  "finished (us @ [(w, j, st, e)]) = (if terminal st then finished us @ [j] else finished us)"
  by (simp add: finished_def)

lemma trail_append [simp]:
  "trail j (us @ [(w, k, st, e)]) = (if k = j then trail j us @ [(w, st)] else trail j us)"
  by (simp add: trail_def)

lemma terminal_select_update [simp]: "terminal (fst (select_update r))"
  by (auto simp: terminal_def select_update_def split: race.splits option.splits)

lemma finished_append_select [simp]:
  "finished (us @ [(w, j, select_update r)]) = finished us @ [j]"
  by (cases "select_update r") (use terminal_select_update [of r] in auto)

lemma trail_append_select [simp]:
  "trail j (us @ [(w, k, select_update r)]) =
     (if k = j then trail j us @ [(w, fst (select_update r))] else trail j us)"
  by (cases "select_update r") auto

lemma not_terminal_running [simp]: "\<not> terminal StatusRunning"
  by (simp add: terminal_def StatusRunning_def StatusCompleted_def StatusFailed_def StatusCancelled_def)

text \<open>The history records what the second half of \<open>processJob\<close> passes to \<open>UpdateStatus\<close>.\<close>

lemma processJob_select_heap:
  "heap (processJob_select s w jobID r now) =
     fst (UpdateStatus (heap s) (store (pool s)) jobID
            (fst (select_update r)) (snd (select_update r)) now)"
  by (simp add: processJob_select_def select_update_def split: race.splits option.splits)

lemmas step_defs = Submit_def chan_send_nb_def Stop_close_def chan_close_def Stop_wait_def
  worker_receives_def chan_recv_def worker_starts_def worker_finishes_def worker_exits_def
  processJob_running_def processJob_select_def select_ready_def executor_returns_def
  awaited_def WithTimeout_def

lemma worker_receives_effect:
  assumes "worker_receives s w = Some s'"
  shows "w < length (workers s) \<and> workers s ! w = AtRange \<and>
         accepted s' = accepted s \<and> updates s' = updates s \<and> stopper s' = stopper s \<and>
         wg (pool s') = wg (pool s) \<and> cfg (pool s') = cfg (pool s) \<and>
         closed (jobs (pool s')) = closed (jobs (pool s)) \<and>
         cap (jobs (pool s')) = cap (jobs (pool s)) \<and>
         ((\<exists>j. buf (jobs (pool s)) = j # buf (jobs (pool s')) \<and>
               recvq (jobs (pool s')) = recvq (jobs (pool s)) \<and>
               workers s' = (workers s)[w := Received j]) \<or>
          (buf (jobs (pool s)) = [] \<and> closed (jobs (pool s)) \<and> jobs (pool s') = jobs (pool s) \<and>
             workers s' = (workers s)[w := RangeDone]) \<or>
          (buf (jobs (pool s)) = [] \<and> \<not> closed (jobs (pool s)) \<and> buf (jobs (pool s')) = [] \<and>
             recvq (jobs (pool s')) = recvq (jobs (pool s)) @ [w] \<and>
             workers s' = (workers s)[w := Parked]))"
  using assms by (auto simp: worker_receives_def chan_recv_def split: if_splits list.splits)

lemma worker_starts_effect:
  assumes "worker_starts s w now = Some s'"
  shows "\<exists>j. w < length (workers s) \<and> workers s ! w = Received j \<and>
           workers s' = (workers s)[w := Racing j] \<and>
           updates s' = updates s @ [(w, j, StatusRunning, [])] \<and>
           accepted s' = accepted s \<and> stopper s' = stopper s \<and>
           jobs (pool s') = jobs (pool s) \<and> wg (pool s') = wg (pool s) \<and>
           cfg (pool s') = cfg (pool s)"
  using assms
  by (auto simp: worker_starts_def processJob_running_def split: if_splits wstate.splits)

lemma worker_finishes_effect:
  assumes "worker_finishes s w r now = Some s'"
  shows "\<exists>j. w < length (workers s) \<and> workers s ! w = Racing j \<and>
           workers s' = (workers s)[w := AtRange] \<and>
           updates s' = updates s @ [(w, j, select_update r)] \<and>
           accepted s' = accepted s \<and> stopper s' = stopper s \<and>
           jobs (pool s') = jobs (pool s) \<and> wg (pool s') = wg (pool s) \<and>
           cfg (pool s') = cfg (pool s)"
  using assms
  by (auto simp: worker_finishes_def processJob_select_def
           split: if_splits wstate.splits race.splits option.splits)

lemma worker_exits_effect:
  assumes "worker_exits s w = Some s'"
  shows "w < length (workers s) \<and> workers s ! w = RangeDone \<and> 0 < wg (pool s) \<and>
         workers s' = (workers s)[w := Exited] \<and> wg (pool s') = wg (pool s) - 1 \<and>
         updates s' = updates s \<and> accepted s' = accepted s \<and> stopper s' = stopper s \<and>
         jobs (pool s') = jobs (pool s) \<and> cfg (pool s') = cfg (pool s)"
  using assms by (auto simp: worker_exits_def split: if_splits)

lemma CallSubmit_effect:
  assumes "step s (CallSubmit j) = Some s'"
  shows "\<not> closed (jobs (pool s)) \<and> closed (jobs (pool s')) = closed (jobs (pool s)) \<and>
         cap (jobs (pool s')) = cap (jobs (pool s)) \<and>
         updates s' = updates s \<and> stopper s' = stopper s \<and>
         wg (pool s') = wg (pool s) \<and> cfg (pool s') = cfg (pool s) \<and>
         ((\<exists>w. recvq (jobs (pool s)) = w # recvq (jobs (pool s')) \<and>
               buf (jobs (pool s')) = buf (jobs (pool s)) \<and>
               workers s' = (workers s)[w := Received j] \<and> accepted s' = accepted s @ [j]) \<or>
          (recvq (jobs (pool s)) = [] \<and> recvq (jobs (pool s')) = [] \<and>
             length (buf (jobs (pool s))) < cap (jobs (pool s)) \<and>
             buf (jobs (pool s')) = buf (jobs (pool s)) @ [j] \<and>
             workers s' = workers s \<and> accepted s' = accepted s @ [j]) \<or>
          (recvq (jobs (pool s)) = [] \<and> \<not> length (buf (jobs (pool s))) < cap (jobs (pool s)) \<and>
             s' = s))"
  using assms by (auto simp: Submit_def chan_send_nb_def split: if_splits list.splits)

lemma CallStop_effect:
  assumes "step s CallStop = Some s'"
  shows "\<not> closed (jobs (pool s)) \<and> closed (jobs (pool s')) \<and>
         cap (jobs (pool s')) = cap (jobs (pool s)) \<and>
         buf (jobs (pool s')) = buf (jobs (pool s)) \<and> recvq (jobs (pool s')) = [] \<and>
         workers s' = fold (\<lambda>w gs. gs[w := RangeDone]) (recvq (jobs (pool s))) (workers s) \<and>
         stopper s' = Waiting \<and> updates s' = updates s \<and> accepted s' = accepted s \<and>
         wg (pool s') = wg (pool s) \<and> cfg (pool s') = cfg (pool s)"
  using assms by (auto simp: Stop_close_def chan_close_def split: if_splits)

lemma StopReturns_effect:
  assumes "step s StopReturns = Some s'"
  shows "stopper s = Waiting \<and> wg (pool s) = 0 \<and> stopper s' = Returned \<and>
         workers s' = workers s \<and> pool s' = pool s \<and>
         updates s' = updates s \<and> accepted s' = accepted s"
  using assms by (auto simp: Stop_wait_def split: if_splits)

lemma ExecutorReturns_effect:
  assumes "executor_returns s k res now = Some s'"
  shows "k < length (executors s) \<and> xstate (executors s ! k) = XRunning \<and>
         s' = s\<lparr>executors := (executors s)[k := (executors s ! k)\<lparr>xstate := XBuffered res\<rparr>]\<rparr>"
  using assms by (auto simp: executor_returns_def split: if_splits)

lemma step_cases:
  assumes "step s a = Some s'"
  obtains
    (submit) j where "a = CallSubmit j" "step s (CallSubmit j) = Some s'"
  | (stop) "a = CallStop" "step s CallStop = Some s'"
  | (returns) "a = StopReturns" "step s StopReturns = Some s'"
  | (receives) w where "a = WorkerReceives w" "worker_receives s w = Some s'"
  | (starts) w now where "a = WorkerStarts w now" "worker_starts s w now = Some s'"
  | (finishes) w r now where "a = WorkerFinishes w r now" "worker_finishes s w r now = Some s'"
  | (exits) w where "a = WorkerExits w" "worker_exits s w = Some s'"
  | (xreturns) k res t where "a = ExecutorReturns k res t"
      "s' = s\<lparr>executors := (executors s)[k := (executors s ! k)\<lparr>xstate := XBuffered res\<rparr>]\<rparr>"
  | (collab) h st where "a = Collaborator h st" "s' = s\<lparr>heap := h, pool := (pool s)\<lparr>store := st\<rparr>\<rparr>"
  using assms by (cases a) (auto dest: ExecutorReturns_effect split: if_splits)

lemma chan_ok_update:
  assumes "chan_ok s" and "w < length (workers s)" and "workers s ! w \<noteq> Parked"
    and "jobs (pool s') = jobs (pool s)" and "workers s' = (workers s)[w := g]"
  shows "chan_ok s'"
proof -
  from assms(1,3) have "w \<notin> set (recvq (jobs (pool s)))"
    by (auto simp: chan_ok_def)
  with assms show ?thesis
    by (auto simp: chan_ok_def nth_list_update)
qed

lemma chan_ok_step:
  assumes ok: "chan_ok s" and st: "step s a = Some s'"
  shows "chan_ok s'"
  using st
proof (cases rule: step_cases)
  case (submit j)
  from CallSubmit_effect [OF submit(2)] show ?thesis
  proof (elim conjE disjE exE)
    fix w
    assume q: "recvq (jobs (pool s)) = w # recvq (jobs (pool s'))"
      and e: "buf (jobs (pool s')) = buf (jobs (pool s))"
        "workers s' = (workers s)[w := Received j]"
    from ok q have rest: "w \<notin> set (recvq (jobs (pool s')))" "distinct (recvq (jobs (pool s')))"
      "buf (jobs (pool s)) = []"
      "\<forall>v\<in>set (recvq (jobs (pool s'))). v < length (workers s) \<and> workers s ! v = Parked"
      by (auto simp: chan_ok_def)
    have "v < length (workers s') \<and> workers s' ! v = Parked"
      if "v \<in> set (recvq (jobs (pool s')))" for v
    proof -
      from that rest(1) have "w \<noteq> v" by auto
      with that rest(4) e show ?thesis by simp
    qed
    with rest e show ?thesis
      by (simp add: chan_ok_def)
  next
    assume "recvq (jobs (pool s')) = []"
    then show ?thesis
      by (simp add: chan_ok_def)
  next
    assume "s' = s"
    with ok show ?thesis by simp
  qed
next
  case stop
  from CallStop_effect [OF stop(2)] show ?thesis
    by (simp add: chan_ok_def)
next
  case returns
  from StopReturns_effect [OF returns(2)] ok show ?thesis
    by (simp add: chan_ok_def)
next
  case (receives w)
  from worker_receives_effect [OF receives(2)] show ?thesis
  proof (elim conjE disjE exE)
    fix j
    assume "buf (jobs (pool s)) = j # buf (jobs (pool s'))"
      and "recvq (jobs (pool s')) = recvq (jobs (pool s))"
    with ok have "recvq (jobs (pool s')) = []"
      by (auto simp: chan_ok_def)
    then show ?thesis
      by (simp add: chan_ok_def)
  next
    assume "w < length (workers s)" "workers s ! w = AtRange"
      "jobs (pool s') = jobs (pool s)" "workers s' = (workers s)[w := RangeDone]"
    with ok show ?thesis
      by (intro chan_ok_update [of s w s' RangeDone]) simp_all
  next
    assume w: "w < length (workers s)" "workers s ! w = AtRange"
      and e: "buf (jobs (pool s')) = []"
        "recvq (jobs (pool s')) = recvq (jobs (pool s)) @ [w]"
        "workers s' = (workers s)[w := Parked]"
    from ok w have "w \<notin> set (recvq (jobs (pool s)))"
      by (auto simp: chan_ok_def)
    with ok w e show ?thesis
      by (auto simp: chan_ok_def nth_list_update)
  qed
next
  case (starts w now)
  from worker_starts_effect [OF starts(2)] ok show ?thesis
    by (auto intro!: chan_ok_update [of s w s'])
next
  case (finishes w r now)
  from worker_finishes_effect [OF finishes(2)] ok show ?thesis
    by (auto intro!: chan_ok_update [of s w s'])
next
  case (exits w)
  from worker_exits_effect [OF exits(2)] ok show ?thesis
    by (auto intro!: chan_ok_update [of s w s'])
next
  case (xreturns k res t)
  with ok show ?thesis by (simp add: chan_ok_def)
next
  case (collab h st')
  with ok show ?thesis by (simp add: chan_ok_def)
qed

lemma accounted_step:
  assumes acc: "accounted s" and ok: "chan_ok s" and st: "step s a = Some s'"
  shows "accounted s'"
proof (cases a)
  case (CallSubmit j)
  with st have "step s (CallSubmit j) = Some s'" by simp
  from CallSubmit_effect [OF this] show ?thesis
  proof (elim conjE disjE exE)
    fix w
    assume q: "recvq (jobs (pool s)) = w # recvq (jobs (pool s'))"
      and e: "buf (jobs (pool s')) = buf (jobs (pool s))"
        "workers s' = (workers s)[w := Received j]" "accepted s' = accepted s @ [j]"
        "updates s' = updates s"
    from ok q have w: "w < length (workers s)" "workers s ! w = Parked"
      by (auto simp: chan_ok_def)
    from in_hand_update [OF w(1), of "Received j"] in_race_update [OF w(1), of "Received j"] w(2)
    have "in_hand ((workers s)[w := Received j]) = add_mset j (in_hand (workers s))"
      and "in_race ((workers s)[w := Received j]) = in_race (workers s)"
      by simp_all
    with acc e show ?thesis
      by (simp add: accounted_def)
  next
    assume "buf (jobs (pool s')) = buf (jobs (pool s)) @ [j]" "workers s' = workers s"
      "accepted s' = accepted s @ [j]" "updates s' = updates s"
    with acc show ?thesis
      by (simp add: accounted_def)
  next
    assume "s' = s"
    with acc show ?thesis by simp
  qed
next
  case CallStop
  with st have "step s CallStop = Some s'" by simp
  note e = CallStop_effect [OF this]
  let ?q = "recvq (jobs (pool s))"
  from ok have "\<forall>w\<in>set ?q. w < length (workers s) \<longrightarrow> held (workers s ! w) = held RangeDone"
    and "\<forall>w\<in>set ?q. w < length (workers s) \<longrightarrow> racing (workers s ! w) = racing RangeDone"
    by (auto simp: chan_ok_def)
  then have "in_hand (fold (\<lambda>w gs. gs[w := RangeDone]) ?q (workers s)) = in_hand (workers s)"
    and "in_race (fold (\<lambda>w gs. gs[w := RangeDone]) ?q (workers s)) = in_race (workers s)"
    by (simp_all add: map_wake in_hand_def in_race_def)
  with acc e show ?thesis
    by (simp add: accounted_def)
next
  case StopReturns
  with st have "step s StopReturns = Some s'" by simp
  from StopReturns_effect [OF this] acc show ?thesis
    by (simp add: accounted_def)
next
  case (WorkerReceives w)
  with st have "worker_receives s w = Some s'" by simp
  note e = worker_receives_effect [OF this]
  then have w: "w < length (workers s)" "workers s ! w = AtRange" by simp_all
  have upd: "in_hand ((workers s)[w := g]) = in_hand (workers s) + mset (held g)"
    "in_race ((workers s)[w := g]) = in_race (workers s) + mset (racing g)" for g
    using in_hand_update [OF w(1), of g] in_race_update [OF w(1), of g] w(2)
    by simp_all
  from e acc show ?thesis
    by (auto simp: accounted_def upd)
next
  case (WorkerStarts w now)
  with st have "worker_starts s w now = Some s'" by simp
  from worker_starts_effect [OF this] obtain j where
    w: "w < length (workers s)" "workers s ! w = Received j" and
    e: "workers s' = (workers s)[w := Racing j]"
       "updates s' = updates s @ [(w, j, StatusRunning, [])]"
       "accepted s' = accepted s" "jobs (pool s') = jobs (pool s)"
    by blast
  from in_hand_update [OF w(1), of "Racing j"] in_race_update [OF w(1), of "Racing j"] w(2)
  have "add_mset j (in_hand ((workers s)[w := Racing j])) = in_hand (workers s)"
    and "in_race ((workers s)[w := Racing j]) = add_mset j (in_race (workers s))"
    by simp_all
  then have "in_hand ((workers s)[w := Racing j]) + in_race ((workers s)[w := Racing j])
      = in_hand (workers s) + in_race (workers s)"
    by (metis union_mset_add_mset_left union_mset_add_mset_right)
  with acc e show ?thesis
    by (simp add: accounted_def ac_simps)
next
  case (WorkerFinishes w r now)
  with st have "worker_finishes s w r now = Some s'" by simp
  from worker_finishes_effect [OF this] obtain j where
    w: "w < length (workers s)" "workers s ! w = Racing j" and
    e: "workers s' = (workers s)[w := AtRange]"
       "updates s' = updates s @ [(w, j, select_update r)]"
       "accepted s' = accepted s" "jobs (pool s') = jobs (pool s)"
    by blast
  from in_hand_update [OF w(1), of AtRange] in_race_update [OF w(1), of AtRange] w(2)
  have "in_hand ((workers s)[w := AtRange]) = in_hand (workers s)"
    and "add_mset j (in_race ((workers s)[w := AtRange])) = in_race (workers s)"
    by simp_all
  then have "in_hand ((workers s)[w := AtRange]) + add_mset j (in_race ((workers s)[w := AtRange]))
      = in_hand (workers s) + in_race (workers s)"
    by simp
  with acc e show ?thesis
    by (simp add: accounted_def ac_simps)
next
  case (WorkerExits w)
  with st have "worker_exits s w = Some s'" by simp
  note e = worker_exits_effect [OF this]
  then have w: "w < length (workers s)" "workers s ! w = RangeDone" by simp_all
  from in_hand_update [OF w(1), of Exited] in_race_update [OF w(1), of Exited] w(2)
  have "in_hand ((workers s)[w := Exited]) = in_hand (workers s)"
    and "in_race ((workers s)[w := Exited]) = in_race (workers s)"
    by simp_all
  with acc e show ?thesis
    by (simp add: accounted_def)
next
  case (ExecutorReturns k res t)
  with st have "executor_returns s k res t = Some s'" by simp
  from ExecutorReturns_effect [OF this] acc show ?thesis
    by (simp add: accounted_def)
next
  case (Collaborator h st')
  with st acc show ?thesis
    by (auto simp: accounted_def)
qed


lemma closed_step:
  "closed (jobs (pool s)) \<Longrightarrow> step s a = Some s' \<Longrightarrow> closed (jobs (pool s'))"
proof (erule step_cases)
  fix j assume "closed (jobs (pool s))" "step s (CallSubmit j) = Some s'"
  with CallSubmit_effect [of s j s'] show ?thesis by auto
next
  assume "step s CallStop = Some s'"
  from CallStop_effect [OF this] show ?thesis by simp
next
  assume "closed (jobs (pool s))" "step s StopReturns = Some s'"
  with StopReturns_effect [of s s'] show ?thesis by simp
next
  fix w assume "closed (jobs (pool s))" "worker_receives s w = Some s'"
  with worker_receives_effect [of s w s'] show ?thesis by auto
next
  fix w now assume "closed (jobs (pool s))" "worker_starts s w now = Some s'"
  with worker_starts_effect [of s w now s'] show ?thesis by auto
next
  fix w r now assume "closed (jobs (pool s))" "worker_finishes s w r now = Some s'"
  with worker_finishes_effect [of s w r now s'] show ?thesis by auto
next
  fix w assume "closed (jobs (pool s))" "worker_exits s w = Some s'"
  with worker_exits_effect [of s w s'] show ?thesis by auto
qed simp_all

lemma alive_update:
  "w < length gs \<Longrightarrow> alive (gs ! w) = alive g \<Longrightarrow>
   sum_list (map alive (gs[w := g])) = sum_list (map alive gs)"
  using sum_alive_update [of w gs g] by simp

lemma wg_ok_step:
  assumes inv: "wg_ok s" and ok: "chan_ok s" and st: "step s a = Some s'"
  shows "wg_ok s'"
  using st
proof (cases rule: step_cases)
  case (submit j)
  from CallSubmit_effect [OF submit(2)] show ?thesis
  proof (elim conjE disjE exE)
    fix w
    assume q: "recvq (jobs (pool s)) = w # recvq (jobs (pool s'))"
      and e: "workers s' = (workers s)[w := Received j]" "wg (pool s') = wg (pool s)"
    from ok q have "w < length (workers s)" "workers s ! w = Parked"
      by (auto simp: chan_ok_def)
    with inv e show ?thesis
      by (simp add: wg_ok_def alive_update)
  qed (use inv in \<open>simp_all add: wg_ok_def\<close>)
next
  case stop
  note e = CallStop_effect [OF stop(2)]
  from ok have "\<forall>w\<in>set (recvq (jobs (pool s))). w < length (workers s) \<longrightarrow>
      alive (workers s ! w) = alive RangeDone"
    by (auto simp: chan_ok_def)
  then have "map alive (fold (\<lambda>w gs. gs[w := RangeDone]) (recvq (jobs (pool s))) (workers s))
      = map alive (workers s)"
    by (rule map_wake)
  with inv e show ?thesis
    by (simp add: wg_ok_def)
next
  case returns
  from StopReturns_effect [OF returns(2)] inv show ?thesis
    by (simp add: wg_ok_def)
next
  case (receives w)
  from worker_receives_effect [OF receives(2)] inv show ?thesis
    by (auto simp: wg_ok_def alive_update)
next
  case (starts w now)
  from worker_starts_effect [OF starts(2)] inv show ?thesis
    by (auto simp: wg_ok_def alive_update)
next
  case (finishes w r now)
  from worker_finishes_effect [OF finishes(2)] inv show ?thesis
    by (auto simp: wg_ok_def alive_update)
next
  case (exits w)
  note e = worker_exits_effect [OF exits(2)]
  then have "w < length (workers s)" "workers s ! w = RangeDone" by simp_all
  from sum_alive_update [OF this(1), of Exited] this(2)
  have "sum_list (map alive ((workers s)[w := Exited])) + 1 = sum_list (map alive (workers s))"
    by simp
  with inv e show ?thesis
    by (simp add: wg_ok_def)
next
  case (xreturns k res t)
  with inv show ?thesis by (simp add: wg_ok_def)
next
  case (collab h st')
  with inv show ?thesis by (simp add: wg_ok_def)
qed

lemma set_update_cases:
  "g' \<in> set (gs[w := g]) \<Longrightarrow> g' = g \<or> g' \<in> set gs"
  by (metis insert_iff set_update_subset_insert subsetD)

lemma drained_step:
  assumes inv: "drained s" and ok: "chan_ok s" and st: "step s a = Some s'"
  shows "drained s'"
  using st
proof (cases rule: step_cases)
  case (submit j)
  from CallSubmit_effect [OF submit(2)] show ?thesis
  proof (elim conjE disjE exE)
    fix w
    assume "\<not> closed (jobs (pool s))" "workers s' = (workers s)[w := Received j]"
    with inv show ?thesis
      by (auto simp: drained_def dest!: set_update_cases)
  next
    assume "\<not> closed (jobs (pool s))" "workers s' = workers s"
    with inv show ?thesis
      by (auto simp: drained_def)
  next
    assume "s' = s"
    with inv show ?thesis by simp
  qed
next
  case stop
  note e = CallStop_effect [OF stop(2)]
  let ?q = "recvq (jobs (pool s))"
  show ?thesis
  proof (cases "?q = []")
    case True
    with e inv show ?thesis
      by (auto simp: drained_def)
  next
    case False
    with ok have "buf (jobs (pool s)) = []"
      by (simp add: chan_ok_def)
    with e show ?thesis
      by (simp add: drained_def)
  qed
next
  case returns
  from StopReturns_effect [OF returns(2)] inv show ?thesis
    by (simp add: drained_def)
next
  case (receives w)
  from worker_receives_effect [OF receives(2)] show ?thesis
  proof (elim conjE disjE exE)
    fix j
    assume e: "buf (jobs (pool s)) = j # buf (jobs (pool s'))"
      "workers s' = (workers s)[w := Received j]"
    with inv have "\<forall>g\<in>set (workers s). g \<noteq> RangeDone \<and> g \<noteq> Exited"
      by (auto simp: drained_def)
    with e show ?thesis
      by (auto simp: drained_def dest!: set_update_cases)
  next
    assume "buf (jobs (pool s)) = []" "closed (jobs (pool s))" "jobs (pool s') = jobs (pool s)"
    then show ?thesis
      by (simp add: drained_def)
  next
    assume e: "\<not> closed (jobs (pool s))" "workers s' = (workers s)[w := Parked]"
    with inv have "\<forall>g\<in>set (workers s). g \<noteq> RangeDone \<and> g \<noteq> Exited"
      by (auto simp: drained_def)
    with e show ?thesis
      by (auto simp: drained_def dest!: set_update_cases)
  qed
next
  case (starts w now)
  from worker_starts_effect [OF starts(2)] inv show ?thesis
    by (auto simp: drained_def dest!: set_update_cases)
next
  case (finishes w r now)
  from worker_finishes_effect [OF finishes(2)] inv show ?thesis
    by (auto simp: drained_def dest!: set_update_cases)
next
  case (exits w)
  note e = worker_exits_effect [OF exits(2)]
  then have "RangeDone \<in> set (workers s)"
    by (metis nth_mem)
  with inv have "closed (jobs (pool s)) \<and> buf (jobs (pool s)) = []"
    by (auto simp: drained_def)
  with e show ?thesis
    by (simp add: drained_def)
next
  case (xreturns k res t)
  with inv show ?thesis by (simp add: drained_def)
next
  case (collab h st')
  with inv show ?thesis by (simp add: drained_def)
qed

lemma stop_ok_step:
  assumes inv: "stop_ok s" and st: "step s a = Some s'"
  shows "stop_ok s'"
  using st
proof (cases rule: step_cases)
  case (submit j)
  from CallSubmit_effect [OF submit(2)] inv show ?thesis
    by (auto simp: stop_ok_def)
next
  case stop
  from CallStop_effect [OF stop(2)] show ?thesis
    by (simp add: stop_ok_def)
next
  case returns
  from StopReturns_effect [OF returns(2)] show ?thesis
    by (simp add: stop_ok_def)
next
  case (receives w)
  from worker_receives_effect [OF receives(2)] inv show ?thesis
    by (auto simp: stop_ok_def)
next
  case (starts w now)
  from worker_starts_effect [OF starts(2)] inv show ?thesis
    by (auto simp: stop_ok_def)
next
  case (finishes w r now)
  from worker_finishes_effect [OF finishes(2)] inv show ?thesis
    by (auto simp: stop_ok_def)
next
  case (exits w)
  from worker_exits_effect [OF exits(2)] inv show ?thesis
    by (auto simp: stop_ok_def)
next
  case (xreturns k res t)
  with inv show ?thesis by (simp add: stop_ok_def)
next
  case (collab h st')
  with inv show ?thesis by (simp add: stop_ok_def)
qed

lemma Racing_in_race: "w < length gs \<Longrightarrow> gs ! w = Racing j \<Longrightarrow> j \<in># in_race gs"
  using racing_mem [of j gs] by (auto simp: in_race_def)

lemma Received_in_hand: "w < length gs \<Longrightarrow> gs ! w = Received j \<Longrightarrow> j \<in># in_hand gs"
  using held_mem [of j gs] by (auto simp: in_hand_def)

lemma once_exclusive:
  assumes "accounted s" and "count_list (accepted s) j \<le> 1"
  shows "count (mset (buf (jobs (pool s)))) j + count (in_hand (workers s)) j
           + count (in_race (workers s)) j + count (mset (finished (updates s))) j \<le> 1"
proof -
  from assms(1) have "count (mset (accepted s)) j =
      count (mset (buf (jobs (pool s))) + in_hand (workers s) + in_race (workers s)
               + mset (finished (updates s))) j"
    by (simp add: accounted_def)
  with assms(2) show ?thesis
    by (simp add: count_mset)
qed

lemma in_hand_not_started:
  assumes "accounted s" and "count_list (accepted s) j \<le> 1"
    and "w < length (workers s)" and "workers s ! w = Received j"
  shows "(\<forall>v<length (workers s). workers s ! v \<noteq> Racing j) \<and> j \<notin> set (finished (updates s))"
proof -
  from assms(3,4) have "j \<in># in_hand (workers s)"
    by (rule Received_in_hand)
  then have "0 < count (in_hand (workers s)) j"
    by (simp only: count_greater_zero_iff)
  with once_exclusive [OF assms(1,2)]
  have r: "count (in_race (workers s)) j = 0" and f: "count (mset (finished (updates s))) j = 0"
    by linarith+
  from r have "\<forall>v<length (workers s). workers s ! v \<noteq> Racing j"
    by (metis Racing_in_race count_eq_zero_iff)
  moreover from f have "j \<notin> set (finished (updates s))"
    by (metis count_eq_zero_iff set_mset_mset)
  ultimately show ?thesis by simp
qed

lemma count_list_snoc_le: "count_list (xs @ [x]) j \<le> 1 \<Longrightarrow> count_list xs j \<le> 1"
  by (simp split: if_splits)

lemma trail_ok_frame:
  assumes inv: "trail_ok s"
    and u: "updates s' = updates s"
    and a: "accepted s' = accepted s \<or> (\<exists>j. accepted s' = accepted s @ [j])"
    and l: "length (workers s') = length (workers s)"
    and r: "\<And>i j. i < length (workers s) \<Longrightarrow> (workers s' ! i = Racing j) = (workers s ! i = Racing j)"
  shows "trail_ok s'"
  unfolding trail_ok_def
proof (intro allI impI)
  fix j assume "count_list (accepted s') j \<le> 1"
  with a have "count_list (accepted s) j \<le> 1"
    by (auto dest: count_list_snoc_le)
  with inv have
    "(\<forall>w<length (workers s). workers s ! w = Racing j \<longrightarrow>
           trail j (updates s) = [(w, StatusRunning)]) \<and>
        (j \<in> set (finished (updates s)) \<longrightarrow>
           (\<exists>w t. terminal t \<and> trail j (updates s) = [(w, StatusRunning), (w, t)])) \<and>
        ((\<forall>w<length (workers s). workers s ! w \<noteq> Racing j) \<and>
         j \<notin> set (finished (updates s)) \<longrightarrow> trail j (updates s) = [])"
    by (simp add: trail_ok_def)
  with u l r show
    "(\<forall>w<length (workers s'). workers s' ! w = Racing j \<longrightarrow>
           trail j (updates s') = [(w, StatusRunning)]) \<and>
        (j \<in> set (finished (updates s')) \<longrightarrow>
           (\<exists>w t. terminal t \<and> trail j (updates s') = [(w, StatusRunning), (w, t)])) \<and>
        ((\<forall>w<length (workers s'). workers s' ! w \<noteq> Racing j) \<and>
         j \<notin> set (finished (updates s')) \<longrightarrow> trail j (updates s') = [])"
    by simp
qed

lemma racing_update_same:
  assumes "\<And>j. gs ! w \<noteq> Racing j" and "\<And>j. g \<noteq> Racing j" and "i < length gs"
  shows "(gs[w := g] ! i = Racing j) = (gs ! i = Racing j)"
  using assms by (cases "i = w") simp_all

lemma trail_ok_step:
  assumes inv: "trail_ok s" and acc: "accounted s" and ok: "chan_ok s"
    and st: "step s a = Some s'"
  shows "trail_ok s'"
  using st
proof (cases rule: step_cases)
  case (submit j0)
  from CallSubmit_effect [OF submit(2)] show ?thesis
  proof (elim conjE disjE exE)
    fix w
    assume q: "recvq (jobs (pool s)) = w # recvq (jobs (pool s'))"
      and e: "workers s' = (workers s)[w := Received j0]" "accepted s' = accepted s @ [j0]"
        "updates s' = updates s"
    from ok q have "workers s ! w = Parked"
      by (auto simp: chan_ok_def)
    with e show ?thesis
      by (intro trail_ok_frame [OF inv]) (simp_all add: racing_update_same)
  next
    assume "workers s' = workers s" "accepted s' = accepted s @ [j0]" "updates s' = updates s"
    then show ?thesis
      by (intro trail_ok_frame [OF inv]) simp_all
  next
    assume "s' = s"
    with inv show ?thesis by simp
  qed
next
  case stop
  note e = CallStop_effect [OF stop(2)]
  let ?q = "recvq (jobs (pool s))"
  have "(fold (\<lambda>w gs. gs[w := RangeDone]) ?q (workers s) ! i = Racing j) = (workers s ! i = Racing j)"
    if "i < length (workers s)" for i j
    using that ok by (auto simp: nth_wake chan_ok_def)
  with e show ?thesis
    by (intro trail_ok_frame [OF inv]) simp_all
next
  case returns
  from StopReturns_effect [OF returns(2)] show ?thesis
    by (intro trail_ok_frame [OF inv]) simp_all
next
  case (receives w)
  from worker_receives_effect [OF receives(2)] show ?thesis
    by (intro trail_ok_frame [OF inv]) (auto simp: racing_update_same)
next
  case (starts w now)
  from worker_starts_effect [OF starts(2)] obtain j0 where
    w: "w < length (workers s)" "workers s ! w = Received j0" and
    e: "workers s' = (workers s)[w := Racing j0]"
       "updates s' = updates s @ [(w, j0, StatusRunning, [])]"
       "accepted s' = accepted s"
    by blast
  show ?thesis
    unfolding trail_ok_def
  proof (intro allI impI)
    fix j assume "count_list (accepted s') j \<le> 1"
    with e have once: "count_list (accepted s) j \<le> 1" by simp
    with inv have old:
      "\<forall>v<length (workers s). workers s ! v = Racing j \<longrightarrow> trail j (updates s) = [(v, StatusRunning)]"
      "j \<in> set (finished (updates s)) \<longrightarrow>
         (\<exists>v t. terminal t \<and> trail j (updates s) = [(v, StatusRunning), (v, t)])"
      "(\<forall>v<length (workers s). workers s ! v \<noteq> Racing j) \<and> j \<notin> set (finished (updates s))
         \<longrightarrow> trail j (updates s) = []"
      by (simp_all add: trail_ok_def)
    show "(\<forall>v<length (workers s'). workers s' ! v = Racing j \<longrightarrow>
             trail j (updates s') = [(v, StatusRunning)]) \<and>
          (j \<in> set (finished (updates s')) \<longrightarrow>
             (\<exists>v t. terminal t \<and> trail j (updates s') = [(v, StatusRunning), (v, t)])) \<and>
          ((\<forall>v<length (workers s'). workers s' ! v \<noteq> Racing j) \<and>
           j \<notin> set (finished (updates s')) \<longrightarrow> trail j (updates s') = [])"
    proof (cases "j = j0")
      case True
      from in_hand_not_started [OF acc once [unfolded True] w]
      have none: "\<forall>v<length (workers s). workers s ! v \<noteq> Racing j0"
        "j0 \<notin> set (finished (updates s))"
        by simp_all
      with old True have "trail j0 (updates s) = []" by simp
      with True e w none show ?thesis
        by (auto simp: nth_list_update)
    next
      case False
      have "(workers s' ! v = Racing j) = (workers s ! v = Racing j)"
        if "v < length (workers s)" for v
        using that e w False by (cases "v = w") simp_all
      moreover from False e have "trail j (updates s') = trail j (updates s)"
        "finished (updates s') = finished (updates s)"
        by simp_all
      moreover from e have "length (workers s') = length (workers s)"
        by simp
      ultimately show ?thesis
        using old by simp
    qed
  qed
next
  case (finishes w r now)
  from worker_finishes_effect [OF finishes(2)] obtain j0 where
    w: "w < length (workers s)" "workers s ! w = Racing j0" and
    e: "workers s' = (workers s)[w := AtRange]"
       "updates s' = updates s @ [(w, j0, select_update r)]"
       "accepted s' = accepted s"
    by blast
  show ?thesis
    unfolding trail_ok_def
  proof (intro allI impI)
    fix j assume "count_list (accepted s') j \<le> 1"
    with e have once: "count_list (accepted s) j \<le> 1" by simp
    with inv have old:
      "\<forall>v<length (workers s). workers s ! v = Racing j \<longrightarrow> trail j (updates s) = [(v, StatusRunning)]"
      "j \<in> set (finished (updates s)) \<longrightarrow>
         (\<exists>v t. terminal t \<and> trail j (updates s) = [(v, StatusRunning), (v, t)])"
      "(\<forall>v<length (workers s). workers s ! v \<noteq> Racing j) \<and> j \<notin> set (finished (updates s))
         \<longrightarrow> trail j (updates s) = []"
      by (simp_all add: trail_ok_def)
    show "(\<forall>v<length (workers s'). workers s' ! v = Racing j \<longrightarrow>
             trail j (updates s') = [(v, StatusRunning)]) \<and>
          (j \<in> set (finished (updates s')) \<longrightarrow>
             (\<exists>v t. terminal t \<and> trail j (updates s') = [(v, StatusRunning), (v, t)])) \<and>
          ((\<forall>v<length (workers s'). workers s' ! v \<noteq> Racing j) \<and>
           j \<notin> set (finished (updates s')) \<longrightarrow> trail j (updates s') = [])"
    proof (cases "j = j0")
      case True
      with old(1) w have t: "trail j0 (updates s) = [(w, StatusRunning)]" by simp
      have "\<forall>v<length (workers s). v \<noteq> w \<longrightarrow> workers s ! v \<noteq> Racing j0"
        using old(1) t True by auto
      with True e w t show ?thesis
        by (auto simp: nth_list_update intro!: exI [of _ w] exI [of _ "fst (select_update r)"])
    next
      case False
      have "(workers s' ! v = Racing j) = (workers s ! v = Racing j)"
        if "v < length (workers s)" for v
        using that e w False by (cases "v = w") simp_all
      moreover from False e have "trail j (updates s') = trail j (updates s)"
        "(j \<in> set (finished (updates s'))) = (j \<in> set (finished (updates s)))"
        by simp_all
      moreover from e have "length (workers s') = length (workers s)"
        by simp
      ultimately show ?thesis
        using old by simp
    qed
  qed
next
  case (exits w)
  from worker_exits_effect [OF exits(2)] show ?thesis
    by (intro trail_ok_frame [OF inv]) (auto simp: racing_update_same)
next
  case (xreturns k res t)
  then show ?thesis
    by (intro trail_ok_frame [OF inv]) simp_all
next
  case (collab h st')
  then show ?thesis
    by (intro trail_ok_frame [OF inv]) simp_all
qed

lemma step_other_fields:
  assumes "step s a = Some s'"
    and "\<forall>w now. a \<noteq> WorkerStarts w now" and "\<forall>w r now. a \<noteq> WorkerFinishes w r now"
    and "\<forall>k res now. a \<noteq> ExecutorReturns k res now" and "\<forall>h st. a \<noteq> Collaborator h st"
  shows "heap s' = heap s \<and> store (pool s') = store (pool s) \<and>
         executors s' = executors s \<and> flight s' = flight s"
  using assms by (cases a) (auto simp: step_defs split: if_splits list.splits)

lemma worker_starts_memory:
  assumes "worker_starts s w now = Some s'"
  shows "\<exists>j. workers s ! w = Received j \<and>
     heap s' = fst (UpdateStatus (heap s) (store (pool s)) j StatusRunning [] now) \<and>
     store (pool s') = store (pool s) \<and>
     executors s' = executors s @
       [\<lparr>xowner = w, xjob = j, xstart = now,
         xdeadline = now + JobTimeout (cfg (pool s)), xstate = XRunning\<rparr>] \<and>
     flight s' = (flight s)(w := length (executors s))"
  using assms
  by (auto simp: worker_starts_def processJob_running_def WithTimeout_def
           split: if_splits wstate.splits)

lemma worker_finishes_memory:
  assumes "worker_finishes s w r now = Some s'"
  shows "\<exists>j. workers s ! w = Racing j \<and>
     flight s w < length (executors s) \<and> select_ready (executors s ! flight s w) r now \<and>
     heap s' = fst (UpdateStatus (heap s) (store (pool s)) j
                      (fst (select_update r)) (snd (select_update r)) now) \<and>
     store (pool s') = store (pool s) \<and> flight s' = flight s \<and>
     executors s' =
       (case r of
          TaskDone res \<Rightarrow>
            (executors s)[flight s w := (executors s ! flight s w)\<lparr>xstate := XDelivered res\<rparr>]
        | CtxDone \<Rightarrow> executors s)"
  using assms
  by (auto simp: worker_finishes_def processJob_select_def select_update_def
           split: if_splits wstate.splits race.splits option.splits)

lemma xstate_update_fields:
  assumes "k < length xs"
  shows "xowner (xs[i := (xs ! i)\<lparr>xstate := x\<rparr>] ! k) = xowner (xs ! k) \<and>
         xjob (xs[i := (xs ! i)\<lparr>xstate := x\<rparr>] ! k) = xjob (xs ! k) \<and>
         xstart (xs[i := (xs ! i)\<lparr>xstate := x\<rparr>] ! k) = xstart (xs ! k) \<and>
         xdeadline (xs[i := (xs ! i)\<lparr>xstate := x\<rparr>] ! k) = xdeadline (xs ! k)"
  using assms by (cases "k = i") simp_all

lemma step_kinds:
  assumes st: "step s a = Some s'" and ok: "chan_ok s"
  obtains
    (starts) w now j0 where "a = WorkerStarts w now"
      "w < length (workers s)" "workers s ! w = Received j0"
      "workers s' = (workers s)[w := Racing j0]"
      "updates s' = updates s @ [(w, j0, StatusRunning, [])]"
      "accepted s' = accepted s" "cfg (pool s') = cfg (pool s)"
      "heap s' = fst (UpdateStatus (heap s) (store (pool s)) j0 StatusRunning [] now)"
      "store (pool s') = store (pool s)"
      "executors s' = executors s @
         [\<lparr>xowner = w, xjob = j0, xstart = now,
           xdeadline = now + JobTimeout (cfg (pool s)), xstate = XRunning\<rparr>]"
      "flight s' = (flight s)(w := length (executors s))"
  | (finishes) w r now j0 where "a = WorkerFinishes w r now"
      "w < length (workers s)" "workers s ! w = Racing j0"
      "workers s' = (workers s)[w := AtRange]"
      "updates s' = updates s @ [(w, j0, select_update r)]"
      "accepted s' = accepted s" "cfg (pool s') = cfg (pool s)"
      "heap s' = fst (UpdateStatus (heap s) (store (pool s)) j0
                        (fst (select_update r)) (snd (select_update r)) now)"
      "store (pool s') = store (pool s)"
      "flight s' = flight s"
      "length (executors s') = length (executors s)"
      "\<forall>k<length (executors s).
          xowner (executors s' ! k) = xowner (executors s ! k) \<and>
          xjob (executors s' ! k) = xjob (executors s ! k) \<and>
          xstart (executors s' ! k) = xstart (executors s ! k) \<and>
          xdeadline (executors s' ! k) = xdeadline (executors s ! k)"
  | (other) "updates s' = updates s" "length (workers s') = length (workers s)"
      "\<forall>i j. i < length (workers s) \<longrightarrow>
         (workers s' ! i = Racing j) = (workers s ! i = Racing j)"
      "cfg (pool s') = cfg (pool s)" "flight s' = flight s"
      "length (executors s') = length (executors s)"
      "\<forall>k<length (executors s).
          xowner (executors s' ! k) = xowner (executors s ! k) \<and>
          xjob (executors s' ! k) = xjob (executors s ! k) \<and>
          xstart (executors s' ! k) = xstart (executors s ! k) \<and>
          xdeadline (executors s' ! k) = xdeadline (executors s ! k)"
      "accepted s' = accepted s \<or> (\<exists>j. accepted s' = accepted s @ [j])"
      "(\<exists>h st. a = Collaborator h st \<and> heap s' = h \<and> store (pool s') = st) \<or>
       (heap s' = heap s \<and> store (pool s') = store (pool s))"
  using st
proof (cases rule: step_cases)
  case (submit j0)
  from step_other_fields [OF st] submit(1)
  have m: "heap s' = heap s" "store (pool s') = store (pool s)"
    "executors s' = executors s" "flight s' = flight s"
    by simp_all
  from CallSubmit_effect [OF submit(2)]
  have e: "updates s' = updates s" "cfg (pool s') = cfg (pool s)"
    "accepted s' = accepted s \<or> (\<exists>j. accepted s' = accepted s @ [j])"
    by auto
  have "length (workers s') = length (workers s) \<and>
    (\<forall>i j. i < length (workers s) \<longrightarrow> (workers s' ! i = Racing j) = (workers s ! i = Racing j))"
    using CallSubmit_effect [OF submit(2)]
  proof (elim conjE disjE exE)
    fix w
    assume q: "recvq (jobs (pool s)) = w # recvq (jobs (pool s'))"
      and w: "workers s' = (workers s)[w := Received j0]"
    from ok q have "workers s ! w = Parked"
      by (auto simp: chan_ok_def)
    with w show ?thesis
      by (simp add: racing_update_same)
  qed simp_all
  with m e show ?thesis
    by (intro other) simp_all
next
  case stop
  from step_other_fields [OF st] stop(1)
  have m: "heap s' = heap s" "store (pool s') = store (pool s)"
    "executors s' = executors s" "flight s' = flight s"
    by simp_all
  note e = CallStop_effect [OF stop(2)]
  let ?q = "recvq (jobs (pool s))"
  have "(fold (\<lambda>w gs. gs[w := RangeDone]) ?q (workers s) ! i = Racing j) = (workers s ! i = Racing j)"
    if "i < length (workers s)" for i j
    using that ok by (auto simp: nth_wake chan_ok_def)
  with m e show ?thesis
    by (intro other) simp_all
next
  case returns
  from step_other_fields [OF st] returns(1)
  have m: "heap s' = heap s" "store (pool s') = store (pool s)"
    "executors s' = executors s" "flight s' = flight s"
    by simp_all
  with StopReturns_effect [OF returns(2)] show ?thesis
    by (intro other) simp_all
next
  case (receives w)
  from step_other_fields [OF st] receives(1)
  have m: "heap s' = heap s" "store (pool s') = store (pool s)"
    "executors s' = executors s" "flight s' = flight s"
    by simp_all
  from worker_receives_effect [OF receives(2)]
  have "updates s' = updates s" "cfg (pool s') = cfg (pool s)" "accepted s' = accepted s"
    "length (workers s') = length (workers s) \<and>
      (\<forall>i j. i < length (workers s) \<longrightarrow> (workers s' ! i = Racing j) = (workers s ! i = Racing j))"
    by (auto simp: racing_update_same)
  with m show ?thesis
    by (intro other) simp_all
next
  case (starts w now)
  from worker_starts_effect [OF starts(2)] worker_starts_memory [OF starts(2)] starts(1)
  show ?thesis
    by (elim exE conjE) (rule that(1), simp_all)
next
  case (finishes w r now)
  from worker_finishes_memory [OF finishes(2)] obtain j1 where
    m: "flight s w < length (executors s)"
      "heap s' = fst (UpdateStatus (heap s) (store (pool s)) j1
                      (fst (select_update r)) (snd (select_update r)) now)"
      "store (pool s') = store (pool s)" "flight s' = flight s"
      "workers s ! w = Racing j1"
      "executors s' =
       (case r of
          TaskDone res \<Rightarrow>
            (executors s)[flight s w := (executors s ! flight s w)\<lparr>xstate := XDelivered res\<rparr>]
        | CtxDone \<Rightarrow> executors s)"
    by blast
  from m(6) have x: "length (executors s') = length (executors s)"
    "\<forall>k<length (executors s).
          xowner (executors s' ! k) = xowner (executors s ! k) \<and>
          xjob (executors s' ! k) = xjob (executors s ! k) \<and>
          xstart (executors s' ! k) = xstart (executors s ! k) \<and>
          xdeadline (executors s' ! k) = xdeadline (executors s ! k)"
    by (auto simp: xstate_update_fields split: race.splits)
  from worker_finishes_effect [OF finishes(2)] m x finishes(1)
  show ?thesis
    by (elim exE conjE) (rule that(2), simp_all)
next
  case (exits w)
  from step_other_fields [OF st] exits(1)
  have m: "heap s' = heap s" "store (pool s') = store (pool s)"
    "executors s' = executors s" "flight s' = flight s"
    by simp_all
  from worker_exits_effect [OF exits(2)]
  have "updates s' = updates s" "cfg (pool s') = cfg (pool s)" "accepted s' = accepted s"
    "length (workers s') = length (workers s) \<and>
      (\<forall>i j. i < length (workers s) \<longrightarrow> (workers s' ! i = Racing j) = (workers s ! i = Racing j))"
    by (auto simp: racing_update_same)
  with m show ?thesis
    by (intro other) simp_all
next
  case (xreturns k res t)
  then show ?thesis
    by (intro other) (simp_all add: xstate_update_fields)
next
  case (collab h st')
  then show ?thesis
    by (intro other) simp_all
qed

lemma known_statuses_step:
  assumes inv: "known_statuses s" and ok: "chan_ok s" and st: "step s a = Some s'"
  shows "known_statuses s'"
  using st ok
proof (cases rule: step_kinds)
  case (starts w now j0)
  with inv show ?thesis by (simp add: known_statuses_def)
next
  case (finishes w r now j0)
  with inv show ?thesis by (simp add: known_statuses_def)
next
  case other
  with inv show ?thesis by (simp add: known_statuses_def)
qed

lemma trail_snoc:
  "trail j (us @ [(w, j0, t, e)]) = (if j0 = j then trail j us @ [(w, t)] else trail j us)"
  by (simp add: trail_def)

lemma last_running_step:
  assumes inv: "last_running s" and ok: "chan_ok s" and st: "step s a = Some s'"
  shows "last_running s'"
  using st ok
proof (cases rule: step_kinds)
  case (starts w now j0)
  show ?thesis
    unfolding last_running_def
  proof (intro allI impI, elim conjE)
    fix j v
    assume ne: "trail j (updates s') \<noteq> []"
      and l: "last (trail j (updates s')) = (v, StatusRunning)"
    show "v < length (workers s') \<and> workers s' ! v = Racing j"
    proof (cases "j = j0")
      case True
      with l starts have "v = w" by (simp add: trail_snoc)
      with starts True show ?thesis by simp
    next
      case False
      with ne l starts have "trail j (updates s) \<noteq> []"
        "last (trail j (updates s)) = (v, StatusRunning)"
        by (simp_all add: trail_snoc)
      with inv have v: "v < length (workers s)" "workers s ! v = Racing j"
        by (auto simp: last_running_def)
      with starts have "v \<noteq> w" by auto
      with v starts show ?thesis by simp
    qed
  qed
next
  case (finishes w r now j0)
  show ?thesis
    unfolding last_running_def
  proof (intro allI impI, elim conjE)
    fix j v
    assume ne: "trail j (updates s') \<noteq> []"
      and l: "last (trail j (updates s')) = (v, StatusRunning)"
    have "j \<noteq> j0"
    proof
      assume "j = j0"
      with l finishes have "fst (select_update r) = StatusRunning"
        by (cases "select_update r") (simp add: trail_snoc)
      with terminal_select_update [of r] show False by simp
    qed
    with ne l finishes have "trail j (updates s) \<noteq> []"
      "last (trail j (updates s)) = (v, StatusRunning)"
      by (cases "select_update r"; simp add: trail_snoc)+
    with inv have v: "v < length (workers s)" "workers s ! v = Racing j"
      by (auto simp: last_running_def)
    with finishes \<open>j \<noteq> j0\<close> have "v \<noteq> w" by auto
    with v finishes show "v < length (workers s') \<and> workers s' ! v = Racing j" by simp
  qed
next
  case other
  with inv show ?thesis
    by (simp add: last_running_def)
qed

lemma flight_ok_step:
  assumes inv: "flight_ok s" and ok: "chan_ok s" and st: "step s a = Some s'"
  shows "flight_ok s'"
  using st ok
proof (cases rule: step_kinds)
  case (starts w now j0)
  show ?thesis
    unfolding flight_ok_def
  proof (intro allI impI)
    fix v j
    assume v: "v < length (workers s')" and r: "workers s' ! v = Racing j"
    show "flight s' v < length (executors s') \<and>
        xowner (executors s' ! flight s' v) = v \<and>
        xjob (executors s' ! flight s' v) = j \<and>
        xdeadline (executors s' ! flight s' v) =
          xstart (executors s' ! flight s' v) + JobTimeout (cfg (pool s'))"
    proof (cases "v = w")
      case True
      with starts r show ?thesis by simp
    next
      case False
      with starts v r have "v < length (workers s)" "workers s ! v = Racing j"
        by simp_all
      with inv have "flight s v < length (executors s) \<and>
        xowner (executors s ! flight s v) = v \<and>
        xjob (executors s ! flight s v) = j \<and>
        xdeadline (executors s ! flight s v) =
          xstart (executors s ! flight s v) + JobTimeout (cfg (pool s))"
        by (simp add: flight_ok_def)
      with False starts show ?thesis
        by (simp add: nth_append)
    qed
  qed
next
  case (finishes w r now j0)
  show ?thesis
    unfolding flight_ok_def
  proof (intro allI impI)
    fix v j
    assume v: "v < length (workers s')" and r: "workers s' ! v = Racing j"
    with finishes have "v \<noteq> w" by auto
    with finishes v r have "v < length (workers s)" "workers s ! v = Racing j"
      by simp_all
    with inv have "flight s v < length (executors s) \<and>
        xowner (executors s ! flight s v) = v \<and>
        xjob (executors s ! flight s v) = j \<and>
        xdeadline (executors s ! flight s v) =
          xstart (executors s ! flight s v) + JobTimeout (cfg (pool s))"
      by (simp add: flight_ok_def)
    with finishes show "flight s' v < length (executors s') \<and>
        xowner (executors s' ! flight s' v) = v \<and>
        xjob (executors s' ! flight s' v) = j \<and>
        xdeadline (executors s' ! flight s' v) =
          xstart (executors s' ! flight s' v) + JobTimeout (cfg (pool s'))"
      by simp
  qed
next
  case other
  show ?thesis
    unfolding flight_ok_def
  proof (intro allI impI)
    fix v j
    assume v: "v < length (workers s')" and r: "workers s' ! v = Racing j"
    with other have "v < length (workers s)" "workers s ! v = Racing j"
      by simp_all
    with inv have "flight s v < length (executors s) \<and>
        xowner (executors s ! flight s v) = v \<and>
        xjob (executors s ! flight s v) = j \<and>
        xdeadline (executors s ! flight s v) =
          xstart (executors s ! flight s v) + JobTimeout (cfg (pool s))"
      by (simp add: flight_ok_def)
    with other show "flight s' v < length (executors s') \<and>
        xowner (executors s' ! flight s' v) = v \<and>
        xjob (executors s' ! flight s' v) = j \<and>
        xdeadline (executors s' ! flight s' v) =
          xstart (executors s' ! flight s' v) + JobTimeout (cfg (pool s'))"
      by simp
  qed
qed

lemma concat_replicate_Nil [simp]: "concat (replicate n []) = []"
  by (induction n) auto

lemma pool_inv_NewPool:
  assumes "NewPool lim h st c = Inr s0"
  shows "pool_inv s0"
proof -
  from NewPool_Inr [OF assms]
  have q: "0 \<le> QueueSize c" "QueueSize c \<le> lim" "NumWorkers c < 2 ^ 31"
    by simp_all
  from assms NewPool_ok [OF q, of h st] have s0: "s0 = \<lparr>heap = h,
                pool = \<lparr>jobs = \<lparr>buf = [], cap = nat (QueueSize c), closed = False, recvq = []\<rparr>,
                         store = st, cfg = c, wg = int (nat (NumWorkers c))\<rparr>,
                workers = replicate (nat (NumWorkers c)) AtRange, executors = [],
                flight = (\<lambda>_. 0), stopper = NotStopped,
                accepted = [], updates = []\<rparr>"
    by simp
  have "chan_ok s0" by (simp add: s0 chan_ok_def)
  moreover have "accounted s0"
    by (simp add: s0 accounted_def in_hand_def in_race_def finished_def)
  moreover have "wg_ok s0"
    by (simp add: s0 wg_ok_def sum_list_replicate)
  moreover have "drained s0"
    by (auto simp: s0 drained_def)
  moreover have "stop_ok s0"
    by (simp add: s0 stop_ok_def)
  moreover have "trail_ok s0"
    by (simp add: s0 trail_ok_def trail_def finished_def)
  moreover have "known_statuses s0"
    by (simp add: s0 known_statuses_def)
  moreover have "last_running s0"
    by (simp add: s0 last_running_def trail_def)
  moreover have "flight_ok s0"
    by (simp add: s0 flight_ok_def)
  ultimately show ?thesis
    by (simp add: pool_inv_def)
qed

lemma pool_inv_step:
  assumes inv: "pool_inv s" and st: "step s a = Some s'"
  shows "pool_inv s'"
proof -
  from inv have i: "chan_ok s" "accounted s" "wg_ok s" "drained s" "stop_ok s" "trail_ok s"
    "known_statuses s" "last_running s" "flight_ok s"
    by (simp_all add: pool_inv_def)
  from i st have "chan_ok s'" by (blast intro: chan_ok_step)
  moreover from i st have "accounted s'" by (blast intro: accounted_step)
  moreover from i st have "wg_ok s'" by (blast intro: wg_ok_step)
  moreover from i st have "drained s'" by (blast intro: drained_step)
  moreover from i st have "stop_ok s'" by (blast intro: stop_ok_step)
  moreover from i st have "trail_ok s'" by (blast intro: trail_ok_step)
  moreover from i st have "known_statuses s'" by (blast intro: known_statuses_step)
  moreover from i st have "last_running s'" by (blast intro: last_running_step)
  moreover from i st have "flight_ok s'" by (blast intro: flight_ok_step)
  ultimately show ?thesis
    by (simp add: pool_inv_def)
qed

lemma pool_inv_exec: "pool_inv s \<Longrightarrow> exec s as = Some s' \<Longrightarrow> pool_inv s'"
proof (induction as arbitrary: s)
  case Nil
  then show ?case by simp
next
  case (Cons a as)
  from Cons.prems(2) obtain s1 where "step s a = Some s1" "exec s1 as = Some s'"
    by (auto split: option.splits)
  with Cons.IH pool_inv_step [OF Cons.prems(1)] show ?case
    by blast
qed

lemma pool_inv_run: "run lim h st c as = Some s \<Longrightarrow> pool_inv s"
  by (auto simp: run_def split: sum.splits intro: pool_inv_exec pool_inv_NewPool)


lemma exec_closed: "closed (jobs (pool s)) \<Longrightarrow> exec s as = Some s' \<Longrightarrow> closed (jobs (pool s'))"
proof (induction as arbitrary: s)
  case Nil
  then show ?case by simp
next
  case (Cons a as)
  from Cons.prems(2) obtain s1 where "step s a = Some s1" "exec s1 as = Some s'"
    by (auto split: option.splits)
  with Cons.IH closed_step [OF Cons.prems(1)] show ?case
    by blast
qed


lemma alive_0 [simp]: "alive g = 0 \<longleftrightarrow> g = Exited"
  by (cases g) simp_all




lemma Submit_result_open:
  "\<not> closed (jobs (pool s)) \<Longrightarrow>
   Submit_result s jobID = Some (recvq (jobs (pool s)) \<noteq> [] \<or> queue_has_room s)"
  by (auto simp: Submit_result_def Submit_def chan_send_nb_def queue_has_room_def
           split: list.splits)

lemma Submit_all_open:
  "\<not> closed (jobs (pool s)) \<Longrightarrow> recvq (jobs (pool s)) = [] \<Longrightarrow>
   Submit_all_results s ids =
     Some (map (\<lambda>i. length (buf (jobs (pool s))) + i < cap (jobs (pool s))) [0..<length ids])"
proof (induction ids arbitrary: s)
  case Nil
  then show ?case
    by (simp add: Submit_all_results_def)
next
  case (Cons jobID rest)
  let ?c = "jobs (pool s)"
  show ?case
  proof (cases "length (buf ?c) < cap ?c")
    case True
    let ?s1 = "s\<lparr>pool := (pool s)\<lparr>jobs := ?c\<lparr>buf := buf ?c @ [jobID]\<rparr>\<rparr>\<rparr>"
    from Cons.prems True have sub: "Submit s jobID = Inr (?s1, True)"
      by (simp add: Submit_def chan_send_nb_def)
    from Cons.prems have "\<not> closed (jobs (pool ?s1))" "recvq (jobs (pool ?s1)) = []"
      by simp_all
    from Cons.IH [OF this] sub True show ?thesis
      by (auto simp: Submit_all_results_def map_upt_Suc simp del: upt_Suc
               split: sum.splits prod.splits)
  next
    case False
    with Cons.prems have sub: "Submit s jobID = Inr (s, False)"
      by (simp add: Submit_def chan_send_nb_def)
    from Cons.IH [OF Cons.prems] sub False show ?thesis
      by (auto simp: Submit_all_results_def map_upt_Suc simp del: upt_Suc
               split: sum.splits prod.splits)
  qed
qed

lemma Submit_all_idle:
  "\<not> closed (jobs (pool s)) \<Longrightarrow> recvq (jobs (pool s)) = [] \<Longrightarrow> buf (jobs (pool s)) = [] \<Longrightarrow>
   Submit_all_results s ids = Some (map (\<lambda>i. i < cap (jobs (pool s))) [0..<length ids])"
  using Submit_all_open [of s ids] by simp







lemma count_list_app_le: "count_list (xs @ ys) j \<le> n \<Longrightarrow> count_list xs j \<le> n"
  by simp














section \<open>The claims about the store\<close>

text \<open>
  C7. \<open>UpdateStatus\<close> returns no error exactly when the identifier is in the map. For
  an absent identifier it returns the not-found error and the memory as it was (the map is
  never written). For a present one it writes the status, the error text and the update
  time of the stored record and leaves its identifier, task and creation time, and every
  other record, as they were.
\<close>

theorem UpdateStatus_contract:
  "(snd (UpdateStatus h s jid st e now) = None \<longleftrightarrow> jid \<in> dom s) \<and>
   (s jid = None \<longrightarrow> UpdateStatus h s jid st e now = (h, Some ErrNotFound)) \<and>
   (\<forall>a. s jid = Some a \<longrightarrow>
      snd (UpdateStatus h s jid st e now) = None \<and>
      Get (fst (UpdateStatus h s jid st e now)) s jid =
        (\<lparr>ID = ID (h a), Task = Task (h a), Status = st, Error = e,
          CreatedAt = CreatedAt (h a), UpdatedAt = now\<rparr>, None) \<and>
      (\<forall>b. b \<noteq> a \<longrightarrow> fst (UpdateStatus h s jid st e now) b = h b))"
proof (cases "s jid")
  case None
  then show ?thesis
    by (simp add: UpdateStatus_absent domIff)
next
  case (Some a)
  then have "jid \<in> dom s" by (simp add: domI)
  with Some show ?thesis
    by (simp add: UpdateStatus_present Get_def)
qed

theorem UpdateStatus_contract_witness:
  "store_c ''c'' = Some 0 \<and> store_c ''nope'' = None \<and>
   UpdateStatus heap_c store_c ''nope'' StatusRunning [] 200 = (heap_c, Some ErrNotFound) \<and>
   snd (UpdateStatus heap_c store_c ''c'' StatusFailed ''boom'' 200) = None \<and>
   Get (fst (UpdateStatus heap_c store_c ''c'' StatusFailed ''boom'' 200)) store_c ''c'' =
     (\<lparr>ID = ''c'', Task = ''t'', Status = StatusFailed, Error = ''boom'',
       CreatedAt = 100, UpdatedAt = 200\<rparr>, None) \<and>
   fst (UpdateStatus heap_c store_c ''c'' StatusFailed ''boom'' 200) 1 = zero_Job"
proof -
  have present: "store_c ''c'' = Some 0" and absent: "store_c ''nope'' = None"
    by (simp_all add: store_c_def)
  have cells: "heap_c 0 = job_c" "heap_c 1 = zero_Job"
    by (simp_all add: heap_c_def)
  from UpdateStatus_contract [of heap_c store_c "''nope''" StatusRunning "[]" 200] absent
  have "UpdateStatus heap_c store_c ''nope'' StatusRunning [] 200 = (heap_c, Some ErrNotFound)"
    by simp
  moreover
  from UpdateStatus_contract [of heap_c store_c "''c''" StatusFailed "''boom''" 200] present
  have "snd (UpdateStatus heap_c store_c ''c'' StatusFailed ''boom'' 200) = None"
    and "Get (fst (UpdateStatus heap_c store_c ''c'' StatusFailed ''boom'' 200)) store_c ''c'' =
      (\<lparr>ID = ID (heap_c 0), Task = Task (heap_c 0), Status = StatusFailed, Error = ''boom'',
        CreatedAt = CreatedAt (heap_c 0), UpdatedAt = 200\<rparr>, None)"
    and "fst (UpdateStatus heap_c store_c ''c'' StatusFailed ''boom'' 200) 1 = heap_c 1"
    by simp_all
  ultimately show ?thesis
    using present absent cells by (simp add: job_c_def)
qed

text \<open>
  C9. The store checks no order of statuses: for a stored identifier, \<open>UpdateStatus\<close>
  with any status value and any error text returns no error, whatever the stored status
  is, and \<open>Get\<close> then reports that status and that text. (A status is any string; so a
  completed job can be put back to queued or running.)
\<close>

theorem UpdateStatus_any_status:
  "s jid = Some a \<Longrightarrow>
   snd (UpdateStatus h s jid st e now) = None \<and>
   Status (fst (Get (fst (UpdateStatus h s jid st e now)) s jid)) = st \<and>
   Error (fst (Get (fst (UpdateStatus h s jid st e now)) s jid)) = e"
  unfolding UpdateStatus_def Get_def by simp

theorem UpdateStatus_any_status_witness:
  "store_c ''c'' = Some 0 \<and>
   Status (fst (Get heap_done store_c ''c'')) = StatusCompleted \<and>
   snd (UpdateStatus heap_done store_c ''c'' StatusQueued [] 300) = None \<and>
   Status (fst (Get (fst (UpdateStatus heap_done store_c ''c'' StatusQueued [] 300)) store_c ''c''))
     = StatusQueued \<and>
   Error (fst (Get (fst (UpdateStatus heap_done store_c ''c'' StatusQueued [] 300)) store_c ''c''))
     = []"
proof -
  have present: "store_c ''c'' = Some 0"
    by (simp add: store_c_def)
  have "Status (fst (Get heap_done store_c ''c'')) = StatusCompleted"
    by (simp add: Get_def store_c_def heap_done_def)
  with present UpdateStatus_any_status [of store_c "''c''" 0 heap_done StatusQueued "[]" 300]
  show ?thesis by simp
qed

section \<open>The claims about the pool\<close>

text \<open>
  C1, as the code has it. \<open>Submit\<close> never blocks: on a channel that is not closed it
  returns at once, and it returns true exactly when a worker is parked in the receive or
  the buffer holds fewer identifiers than its capacity. In a run of \<open>NewPool\<close> with a
  capacity of at least one, that is exactly when the buffer holds fewer identifiers than
  its capacity. From an empty buffer with no parked worker, and with no step of a worker
  in between, the first \<open>cap\<close> calls return true and every later one false.
\<close>

theorem Submit_fail_fast:
  "\<not> closed (jobs (pool s)) \<Longrightarrow>
   Submit_result s jobID = Some (recvq (jobs (pool s)) \<noteq> [] \<or> queue_has_room s) \<and>
   (\<forall>lim h st c as. run lim h st c as = Some s \<longrightarrow> 0 < cap (jobs (pool s)) \<longrightarrow>
      Submit_result s jobID = Some (queue_has_room s)) \<and>
   (recvq (jobs (pool s)) = [] \<longrightarrow> buf (jobs (pool s)) = [] \<longrightarrow>
      Submit_all_results s ids = Some (map (\<lambda>i. i < cap (jobs (pool s))) [0..<length ids]))"
proof (intro conjI allI impI)
  assume "\<not> closed (jobs (pool s))"
  then show "Submit_result s jobID = Some (recvq (jobs (pool s)) \<noteq> [] \<or> queue_has_room s)"
    by (rule Submit_result_open)
next
  fix lim h st c as
  assume "\<not> closed (jobs (pool s))" and r: "run lim h st c as = Some s"
    and "0 < cap (jobs (pool s))"
  moreover from pool_inv_run [OF r] have "recvq (jobs (pool s)) \<noteq> [] \<longrightarrow> buf (jobs (pool s)) = []"
    by (simp add: pool_inv_def chan_ok_def)
  ultimately show "Submit_result s jobID = Some (queue_has_room s)"
    by (auto simp: Submit_result_open queue_has_room_def)
next
  assume "\<not> closed (jobs (pool s))" "recvq (jobs (pool s)) = []" "buf (jobs (pool s)) = []"
  with Submit_all_idle [of s ids]
  show "Submit_all_results s ids = Some (map (\<lambda>i. i < cap (jobs (pool s))) [0..<length ids])"
    by simp
qed

theorem Submit_fail_fast_witness:
  "case run lim_ex heap_c store_c cfg_no_workers [] of
     None \<Rightarrow> False
   | Some s \<Rightarrow>
       \<not> closed (jobs (pool s)) \<and> recvq (jobs (pool s)) = [] \<and> buf (jobs (pool s)) = [] \<and>
       cap (jobs (pool s)) = 2 \<and>
       Submit_result s ''x'' = Some True \<and>
       Submit_all_results s [''x'', ''y'', ''z''] = Some [True, True, False]"
proof -
  have "\<exists>s. run lim_ex heap_c store_c cfg_no_workers [] = Some s \<and>
      \<not> closed (jobs (pool s)) \<and> recvq (jobs (pool s)) = [] \<and> buf (jobs (pool s)) = [] \<and>
      cap (jobs (pool s)) = 2"
    by (simp add: run_def NewPool_ok cfg_no_workers_def lim_ex_def)
  then obtain s where r: "run lim_ex heap_c store_c cfg_no_workers [] = Some s"
    and s: "\<not> closed (jobs (pool s))" "recvq (jobs (pool s)) = []" "buf (jobs (pool s)) = []"
      "cap (jobs (pool s)) = 2"
    by blast
  have room: "queue_has_room s"
    using s by (simp add: queue_has_room_def)
  have three: "map (\<lambda>i. i < cap (jobs (pool s))) [0..<length [''x'', ''y'', ''z'']]
      = [True, True, False]"
    by (simp add: s upt_rec)
  from Submit_fail_fast [OF s(1), of "''x''" "[''x'', ''y'', ''z'']"] r s
  have "Submit_result s ''x'' = Some (queue_has_room s)"
    and "Submit_all_results s [''x'', ''y'', ''z'']
      = Some (map (\<lambda>i. i < cap (jobs (pool s))) [0..<length [''x'', ''y'', ''z'']])"
    by auto
  with room three have "Submit_result s ''x'' = Some True"
    and "Submit_all_results s [''x'', ''y'', ''z''] = Some [True, True, False]"
    by simp_all
  with r s show ?thesis
    by simp
qed

text \<open>
  C1 as stated fails on an unbuffered pool: with capacity 0 and the one worker parked in
  its receive, \<open>Submit\<close> hands the identifier to the worker and returns true, while the
  queue does not hold fewer identifiers than its capacity.
\<close>

theorem Submit_unbuffered_counterexample:
  "map_option (Submit_result_and_room ''x'')
     (run lim_ex heap_c store_c cfg_unbuffered [WorkerReceives 0])
     = Some (Some True, False)"
  by (simp add: Submit_result_and_room_def Submit_result_def queue_has_room_def run_def NewPool_ok
        cfg_unbuffered_def lim_ex_def step_defs)

text \<open>
  C8. A call of \<open>Submit\<close> that returns false changes nothing at all: the state after it
  is the state before it, so every record of the store is as it was. (No call of
  \<open>Submit\<close>, whatever it returns, writes the memory or the store.)
\<close>

theorem Submit_rejected_changes_nothing:
  "Submit s jobID = Inr (s', False) \<Longrightarrow>
   s' = s \<and> heap s' = heap s \<and> store (pool s') = store (pool s) \<and>
   (\<forall>s'' b. Submit s jobID = Inr (s'', b) \<longrightarrow>
      heap s'' = heap s \<and> store (pool s'') = store (pool s))"
proof -
  assume rejected: "Submit s jobID = Inr (s', False)"
  then have same: "s' = s"
    by (auto simp: Submit_def chan_send_nb_def split: if_splits list.splits)
  have "heap s'' = heap s \<and> store (pool s'') = store (pool s)"
    if "Submit s jobID = Inr (s'', b)" for s'' b
    using that by (auto simp: Submit_def chan_send_nb_def split: if_splits list.splits)
  with same show ?thesis by blast
qed

theorem Submit_rejected_changes_nothing_witness:
  "case run lim_ex heap_c store_c cfg_invalid [CallSubmit ''x''] of
     None \<Rightarrow> False
   | Some s \<Rightarrow> Submit s ''c'' = Inr (s, False) \<and> status_of ''c'' s = StatusQueued"
proof -
  have "\<exists>s. run lim_ex heap_c store_c cfg_invalid [CallSubmit ''x''] = Some s \<and>
      Submit s ''c'' = Inr (s, False) \<and> status_of ''c'' s = StatusQueued"
    by (simp add: run_def NewPool_ok cfg_invalid_def lim_ex_def step_defs status_of_def Get_def
          store_c_def heap_c_def job_c_def)
  then obtain s where r: "run lim_ex heap_c store_c cfg_invalid [CallSubmit ''x''] = Some s"
    and rejected: "Submit s ''c'' = Inr (s, False)" and q: "status_of ''c'' s = StatusQueued"
    by blast
  from Submit_rejected_changes_nothing [OF rejected] r rejected q show ?thesis
    by simp
qed

text \<open>
  C10. Once \<open>Stop\<close> has closed the channel, then after any further steps a call of
  \<open>Submit\<close> panics with a send on a closed channel, and a second call of \<open>Stop\<close> panics
  with a close of a closed channel.
\<close>

theorem Submit_and_Stop_after_Stop:
  "Stop_close s = Inr s1 \<Longrightarrow> exec s1 as = Some s2 \<Longrightarrow>
   Submit s2 jobID = Inl SendOnClosedChannel \<and> Stop_close s2 = Inl CloseOfClosedChannel"
proof -
  assume "Stop_close s = Inr s1" and later: "exec s1 as = Some s2"
  then have "closed (jobs (pool s1))"
    by (auto simp: Stop_close_def chan_close_def split: if_splits)
  from exec_closed [OF this later] show ?thesis
    by (simp add: Submit_def chan_send_nb_def Stop_close_def chan_close_def)
qed

theorem Submit_and_Stop_after_Stop_witness:
  "case run lim_ex heap_c store_c cfg_1 [CallSubmit ''c'', CallStop, WorkerReceives 0] of
     None \<Rightarrow> False
   | Some s2 \<Rightarrow>
       Submit s2 ''d'' = Inl SendOnClosedChannel \<and> Stop_close s2 = Inl CloseOfClosedChannel"
proof -
  have "\<exists>s s1 s2. run lim_ex heap_c store_c cfg_1 [CallSubmit ''c''] = Some s \<and>
      Stop_close s = Inr s1 \<and> exec s1 [WorkerReceives 0] = Some s2 \<and>
      run lim_ex heap_c store_c cfg_1 [CallSubmit ''c'', CallStop, WorkerReceives 0] = Some s2"
    by (simp add: run_def NewPool_ok cfg_1_def lim_ex_def step_defs)
  then obtain s s1 s2 where "Stop_close s = Inr s1" "exec s1 [WorkerReceives 0] = Some s2"
    and r: "run lim_ex heap_c store_c cfg_1 [CallSubmit ''c'', CallStop, WorkerReceives 0] = Some s2"
    by blast
  from Submit_and_Stop_after_Stop [OF this(1,2), of "''d''"] r show ?thesis
    by simp
qed












end
